theory Spec2Isabelle
  imports Complex_Main "HOL-Library.Word"
begin

section \<open>Input validation (qwwad/file-io.cpp)\<close>

text \<open>
  The C++ \<open>double\<close> is modelled as \<open>real\<close>, except where a section says what else it
  models of it. The checks take a pointer to the
  value; they only read through it, so the model takes the content of the cell and
  returns, when nothing is thrown, the content of the cell after the call. The text of
  the exception is built with an output stream: it is kept as the list of the pieces
  that are streamed, the value itself being one of them.
\<close>

datatype message_part = Text string | Value real

datatype exn = domain_error "message_part list"

definition check_c_interval_0_1 :: "real \<Rightarrow> exn + real" where
  "check_c_interval_0_1 px =
     (if px < 0.0 \<or> px > 1.0
      then Inl (domain_error [Text ''Value ('', Value px,
                              Text '') lies outside the closed interval [0,1].''])
      else Inr px)"

definition check_positive :: "real \<Rightarrow> exn + real" where
  "check_positive pW =
     (if pW \<le> 0
      then Inl (domain_error [Text ''Nonpositive value ('', Value pW, Text '') detected.''])
      else Inr pW)"

definition check_not_negative :: "real \<Rightarrow> exn + real" where
  "check_not_negative pW =
     (if pW < 0
      then Inl (domain_error [Text ''Negative value ('', Value pW, Text '') detected.''])
      else Inr pW)"

section \<open>Form-factor and polarizability tables (srcc.cpp)\<close>

text \<open>
  A table is a block of \<open>nq\<close> entries of the struct \<open>data11\<close>, whose declaration (in
  \<open>struct.h\<close>) is not among the sources; the code uses its two \<open>double\<close> fields: \<open>a\<close>,
  the wavevector, and \<open>b\<close>, the tabulated value. The block is modelled as a list. The
  lookups address it with a pointer and an \<open>int\<close> index and check no bound: a read
  outside the block is undefined behaviour in C++, and is the result \<open>Out_of_bounds\<close>
  (with the index read) in the model. \<open>exit\<close> after a message that was printed is the
  result \<open>Exit\<close>, with the message and the exit status.
\<close>

record data11 =
  a :: real
  b :: real

datatype failure = Exit string nat | Out_of_bounds int

definition table_at :: "data11 list \<Rightarrow> int \<Rightarrow> failure + data11" where
  "table_at t i =
     (if 0 \<le> i \<and> i < int (length t) then Inr (t ! nat i) else Inl (Out_of_bounds i))"

text \<open>The scan \<open>while(q_perp >= (Aijfg+iq)->a) iq++\<close>, from the index \<open>iq\<close> on.\<close>

function scan_above :: "data11 list \<Rightarrow> real \<Rightarrow> int \<Rightarrow> failure + int" where
  "scan_above t q_perp iq =
     (if 0 \<le> iq \<and> iq < int (length t)
      then (if q_perp \<ge> a (t ! nat iq) then scan_above t q_perp (iq + 1) else Inr iq)
      else Inl (Out_of_bounds iq))"
  by pat_completeness auto
termination
  by (relation "measure (\<lambda>(t, q_perp, iq). nat (int (length t) - iq))") auto

declare scan_above.simps [simp del]

definition interpolate :: "data11 \<Rightarrow> data11 \<Rightarrow> real \<Rightarrow> real" where
  "interpolate lo hi q_perp = b lo + (b hi - b lo) * (q_perp - a lo) / (a hi - a lo)"

definition lookup_ff :: "data11 list \<Rightarrow> real \<Rightarrow> nat \<Rightarrow> failure + real" where
  "lookup_ff Aijfg q_perp nq =
     (case table_at Aijfg (int nq - 1) of
        Inl e \<Rightarrow> Inl e
      | Inr top_entry \<Rightarrow>
          if q_perp > a top_entry then Inl (Exit (''q_perp>maximum allowed q!'' @ [CHR 0x0A]) 0)
          else
            (case scan_above Aijfg q_perp 0 of
               Inl e \<Rightarrow> Inl e
             | Inr iq \<Rightarrow>
                 (case table_at Aijfg (iq - 1) of
                    Inl e \<Rightarrow> Inl e
                  | Inr lo \<Rightarrow>
                      (case table_at Aijfg iq of
                         Inl e \<Rightarrow> Inl e
                       | Inr hi \<Rightarrow> Inr (interpolate lo hi q_perp)))))"

definition lookup_PI :: "data11 list \<Rightarrow> real \<Rightarrow> nat \<Rightarrow> failure + real" where
  "lookup_PI PIii q_perp nq =
     (case table_at PIii (int nq - 1) of
        Inl e \<Rightarrow> Inl e
      | Inr top_entry \<Rightarrow>
          if q_perp > a top_entry then Inl (Exit (''q_perp>maximum allowed q!'' @ [CHR 0x0A]) 0)
          else
            (case scan_above PIii q_perp 0 of
               Inl e \<Rightarrow> Inl e
             | Inr iq \<Rightarrow>
                 (case table_at PIii (iq - 1) of
                    Inl e \<Rightarrow> Inl e
                  | Inr lo \<Rightarrow>
                      (case table_at PIii iq of
                         Inl e \<Rightarrow> Inl e
                       | Inr hi \<Rightarrow> Inr (interpolate lo hi q_perp)))))"

text \<open>The tables the claims are about: the wavevectors strictly increase along the table.\<close>

definition increasing_q :: "data11 list \<Rightarrow> bool" where
  "increasing_q t = sorted_wrt (\<lambda>x y. a x < a y) t"

section \<open>The carrier-carrier matrix element (srcc.cpp)\<close>

text \<open>
  The exponentials \<open>exp(q * (z - z[0]))\<close> grow beyond the range of a \<open>double\<close>, so the
  values of this computation are modelled with what a \<open>double\<close> does at its upper end:
  a value is a real number (\<open>Num\<close>), plus or minus infinity, or not a number (\<open>NaN\<close>).
  An operation whose exact result reaches \<open>overflow_threshold\<close> (the midpoint between
  the largest finite \<open>double\<close> and \<open>2\<^sup>1\<^sup>0\<^sup>2\<^sup>4\<close>) gives an infinity; the operations on
  infinities and NaN are those of IEEE 754. The rounding of a result in range and the
  sign of a zero are not modelled. The grid \<open>z\<close>, the wavevector \<open>q\<close> and the products
  of wavefunctions are finite numbers.
\<close>

datatype double = Num real | PInf | MInf | NaN

definition overflow_threshold :: real where
  "overflow_threshold = 2 ^ 1024 - 2 ^ 970"

definition rnd :: "real \<Rightarrow> double" where
  "rnd x = (if x \<ge> overflow_threshold then PInf
            else if x \<le> - overflow_threshold then MInf else Num x)"

fun dadd :: "double \<Rightarrow> double \<Rightarrow> double" where
  "dadd NaN y = NaN"
| "dadd x NaN = NaN"
| "dadd (Num x) (Num y) = rnd (x + y)"
| "dadd PInf MInf = NaN"
| "dadd MInf PInf = NaN"
| "dadd PInf y = PInf"
| "dadd x PInf = PInf"
| "dadd MInf y = MInf"
| "dadd x MInf = MInf"

fun dmul :: "double \<Rightarrow> double \<Rightarrow> double" where
  "dmul NaN y = NaN"
| "dmul x NaN = NaN"
| "dmul (Num x) (Num y) = rnd (x * y)"
| "dmul (Num x) PInf = (if x = 0 then NaN else if x > 0 then PInf else MInf)"
| "dmul (Num x) MInf = (if x = 0 then NaN else if x > 0 then MInf else PInf)"
| "dmul PInf (Num y) = (if y = 0 then NaN else if y > 0 then PInf else MInf)"
| "dmul MInf (Num y) = (if y = 0 then NaN else if y > 0 then MInf else PInf)"
| "dmul PInf PInf = PInf"
| "dmul PInf MInf = MInf"
| "dmul MInf PInf = MInf"
| "dmul MInf MInf = PInf"

fun ddiv :: "double \<Rightarrow> double \<Rightarrow> double" where
  "ddiv NaN y = NaN"
| "ddiv x NaN = NaN"
| "ddiv (Num x) (Num y) =
     (if y = 0 then (if x = 0 then NaN else if x > 0 then PInf else MInf) else rnd (x / y))"
| "ddiv (Num x) y = Num 0"
| "ddiv PInf (Num y) = (if y \<ge> 0 then PInf else MInf)"
| "ddiv MInf (Num y) = (if y \<ge> 0 then MInf else PInf)"
| "ddiv x y = NaN"

text \<open>
  A \<open>valarray\<close> is a list. Its subscript checks no bound, so a read outside the array
  is \<open>Out_of_bounds\<close>: the accumulators read \<open>z[1]\<close> and the entries
  \<open>0 .. nz-1\<close> of the two other arrays, which asks for at least two grid points and for
  arrays as long as the grid. The loop counters are natural numbers: a grid has far
  fewer points than an \<open>int\<close> can count.
\<close>

text \<open>\<open>find_exp_qz\<close>: the array \<open>exp(q * (z - z[0]))\<close>.\<close>

definition find_exp_qz :: "real \<Rightarrow> real list \<Rightarrow> double list" where
  "find_exp_qz q z = map (\<lambda>zi. rnd (exp (q * (zi - z ! 0)))) z"

text \<open>
  The loop of \<open>find_Cif_p\<close>, \<open>for(int iz = nz-2; iz >= 0; iz--)\<close>: the first argument
  is \<open>iz + 1\<close>, the number of entries still to be written.
\<close>

fun Cif_p_loop ::
  "nat \<Rightarrow> real list \<Rightarrow> double list \<Rightarrow> real \<Rightarrow> double list \<Rightarrow> double list" where
  "Cif_p_loop 0 psi_if exp_qz dz Cif_p = Cif_p"
| "Cif_p_loop (Suc iz) psi_if exp_qz dz Cif_p =
     Cif_p_loop iz psi_if exp_qz dz
       (Cif_p[iz := dadd (Cif_p ! (iz + 1))
                         (dmul (ddiv (Num (psi_if ! iz)) (exp_qz ! iz)) (Num dz))])"

definition find_Cif_p :: "real list \<Rightarrow> double list \<Rightarrow> real list \<Rightarrow> failure + double list" where
  "find_Cif_p psi_if exp_qz z =
     (let nz = length z in
      if nz < 2 then Inl (Out_of_bounds 1)
      else if length psi_if < nz \<or> length exp_qz < nz then Inl (Out_of_bounds (int nz - 1))
      else
        let dz = z ! 1 - z ! 0;
            Cif_p = (replicate nz (Num 0))
                      [nz - 1 := dmul (ddiv (Num (psi_if ! (nz - 1))) (exp_qz ! (nz - 1))) (Num dz)]
        in Inr (Cif_p_loop (nz - 1) psi_if exp_qz dz Cif_p))"

text \<open>The loop of \<open>find_Cif_m\<close>, \<open>for(unsigned int iz = 1; iz < nz; iz++)\<close>.\<close>

function Cif_m_loop ::
  "nat \<Rightarrow> nat \<Rightarrow> real list \<Rightarrow> double list \<Rightarrow> real \<Rightarrow> double list \<Rightarrow> double list" where
  "Cif_m_loop iz nz psi_if exp_qz dz Cif_m =
     (if iz < nz
      then Cif_m_loop (iz + 1) nz psi_if exp_qz dz
             (Cif_m[iz := dadd (Cif_m ! (iz - 1))
                               (dmul (dmul (Num (psi_if ! (iz - 1))) (exp_qz ! (iz - 1))) (Num dz))])
      else Cif_m)"
  by pat_completeness auto
termination
  by (relation "measure (\<lambda>(iz, nz, psi_if, exp_qz, dz, Cif_m). nz - iz)") auto

declare Cif_m_loop.simps [simp del]

definition find_Cif_m :: "real list \<Rightarrow> double list \<Rightarrow> real list \<Rightarrow> failure + double list" where
  "find_Cif_m psi_if exp_qz z =
     (let nz = length z in
      if nz < 2 then Inl (Out_of_bounds 1)
      else if length psi_if < nz - 1 \<or> length exp_qz < nz - 1
        then Inl (Out_of_bounds (int (min (length psi_if) (length exp_qz))))
      else
        let dz = z ! 1 - z ! 0;
            Cif_m = (replicate nz (Num 0))[0 := Num 0]
        in Inr (Cif_m_loop 1 nz psi_if exp_qz dz Cif_m))"

definition Iif :: "nat \<Rightarrow> double list \<Rightarrow> double list \<Rightarrow> double list \<Rightarrow> double" where
  "Iif iz0 Cif_p Cif_m exp_qz =
     dadd (ddiv (Cif_m ! iz0) (exp_qz ! iz0)) (dmul (Cif_p ! iz0) (exp_qz ! iz0))"

text \<open>
  The matrix element at the grid point \<open>iz0\<close> as \<open>A\<close> computes it for the product
  \<open>psi_jg\<close>: the exponentials, the two accumulators, then \<open>Iif\<close>.
\<close>

definition Ijg :: "real \<Rightarrow> real list \<Rightarrow> real list \<Rightarrow> nat \<Rightarrow> failure + double" where
  "Ijg q_perp z psi_jg iz =
     (let expTerm = find_exp_qz q_perp z in
      case find_Cif_p psi_jg expTerm z of
        Inl e \<Rightarrow> Inl e
      | Inr Cjg_plus \<Rightarrow>
          (case find_Cif_m psi_jg expTerm z of
             Inl e \<Rightarrow> Inl e
           | Inr Cjg_minus \<Rightarrow> Inr (Iif iz Cjg_plus Cjg_minus expTerm)))"

text \<open>
  The spec's brute-force form of the same matrix element, in exact arithmetic: the
  rectangle-rule sum over all grid points of
  \<open>psi_jg[iz] * exp(-q * |z[iz] - z[iz0]|) * dz\<close>.
\<close>

definition Iif_brute_force :: "real \<Rightarrow> real list \<Rightarrow> real list \<Rightarrow> nat \<Rightarrow> real" where
  "Iif_brute_force q z psi_jg iz0 =
     (\<Sum>iz < length z. psi_jg ! iz * exp (- q * \<bar>z ! iz - z ! iz0\<bar>) * (z ! 1 - z ! 0))"

text \<open>A uniform grid: at least two points, a constant positive step.\<close>

definition uniform_grid :: "real list \<Rightarrow> bool" where
  "uniform_grid z =
     (2 \<le> length z \<and> 0 < z ! 1 - z ! 0 \<and>
      (\<forall>i < length z. z ! i = z ! 0 + real i * (z ! 1 - z ! 0)))"

section \<open>The polarizability integral (srcc.cpp)\<close>

text \<open>
  The class \<open>Subband\<close> is declared outside the sources. Its object is a record of what
  the code asks of it: the band-edge mass, the band-edge energy, the Fermi energy, the
  population, the wavevector \<open>k\<close> at an energy, the kinetic energy \<open>Ek\<close> at a
  wavevector and the Fermi-Dirac occupation \<open>f_FD_k\<close> at a wavevector and a temperature.
  The physical constants \<open>hBar\<close>, \<open>kB\<close> and \<open>e\<close> come from a header outside the sources
  too: they are arguments of the functions that use them. \<open>gsl_pow_2\<close> is the square of
  the GNU Scientific Library.
\<close>

record Subband =
  get_md_0 :: real
  get_E :: real
  get_Ef :: real
  get_pop :: real
  k :: "real \<Rightarrow> real"
  Ek :: "real \<Rightarrow> real"
  f_FD_k :: "real \<Rightarrow> real \<Rightarrow> real"

definition gsl_pow_2 :: "real \<Rightarrow> real" where
  "gsl_pow_2 x = x * x"

text \<open>
  The low-temperature polarizability that one pass of the loop of \<open>PI\<close> computes, from
  the mass \<open>m\<close>, the wavevector \<open>ki\<close> of the energy sample and \<open>q_perp\<close>.
\<close>

definition PI_P0 :: "real \<Rightarrow> real \<Rightarrow> real \<Rightarrow> real \<Rightarrow> real" where
  "PI_P0 hBar m ki q_perp =
     (let P0 = m / (pi * hBar * hBar) in
      if q_perp > 2 * ki
      then P0 - m / (pi * hBar * hBar) * sqrt (1 - gsl_pow_2 (2 * ki / q_perp))
      else P0)"

text \<open>
  One pass of the body of the \<open>do ... while\<close> loop, from the values of \<open>mu\<close> and
  \<open>integral\<close> before it: the increment \<open>dI\<close> and the two values after it.
\<close>

definition PI_body ::
  "real \<Rightarrow> real \<Rightarrow> real \<Rightarrow> Subband \<Rightarrow> real \<Rightarrow> real \<Rightarrow> real \<times> real \<Rightarrow> real \<times> real \<times> real" where
  "PI_body hBar kB e isb q_perp T s =
     (let m = get_md_0 isb;
          mu = fst s;
          dmu = 0.001 * e;
          integral = snd s;
          ki = k isb mu;
          P0 = PI_P0 hBar m ki q_perp;
          dI = P0 / (4 * kB * T * gsl_pow_2 (cosh ((get_Ef isb - mu) / (2 * kB * T))))
      in (dI, mu + dmu, integral + dI * dmu))"

text \<open>
  The loop. The test \<open>dI > integral/100\<close> is made after the pass, on the updated
  \<open>integral\<close>. Nothing bounds the number of passes, so the loop is a partial function:
  \<open>None\<close> stands for a loop that never ends.
\<close>

partial_function (option) PI_loop ::
  "real \<Rightarrow> real \<Rightarrow> real \<Rightarrow> Subband \<Rightarrow> real \<Rightarrow> real \<Rightarrow> real \<times> real \<Rightarrow> real option" where
  "PI_loop hBar kB e isb q_perp T s =
     (let r = PI_body hBar kB e isb q_perp T s;
          dI = fst r;
          integral = snd (snd r)
      in if dI > integral / 100 then PI_loop hBar kB e isb q_perp T (snd r)
         else Some integral)"

definition PI :: "real \<Rightarrow> real \<Rightarrow> real \<Rightarrow> Subband \<Rightarrow> real \<Rightarrow> real \<Rightarrow> real option" where
  "PI hBar kB e isb q_perp T = PI_loop hBar kB e isb q_perp T (get_E isb, 0)"

text \<open>
  The values of \<open>mu\<close> and \<open>integral\<close> after \<open>n\<close> passes of the body, whatever the test
  says: what the loop has computed if it is still running then.
\<close>

primrec PI_after ::
  "real \<Rightarrow> real \<Rightarrow> real \<Rightarrow> Subband \<Rightarrow> real \<Rightarrow> real \<Rightarrow> nat \<Rightarrow> real \<times> real" where
  "PI_after hBar kB e isb q_perp T 0 = (get_E isb, 0)"
| "PI_after hBar kB e isb q_perp T (Suc n) =
     snd (PI_body hBar kB e isb q_perp T (PI_after hBar kB e isb q_perp T n))"

text \<open>The test at the end of pass \<open>n\<close> (counted from 1): true when the loop goes on.\<close>

definition PI_continues ::
  "real \<Rightarrow> real \<Rightarrow> real \<Rightarrow> Subband \<Rightarrow> real \<Rightarrow> real \<Rightarrow> nat \<Rightarrow> bool" where
  "PI_continues hBar kB e isb q_perp T n =
     (let r = PI_body hBar kB e isb q_perp T (PI_after hBar kB e isb q_perp T (n - 1))
      in fst r > snd (snd r) / 100)"

section \<open>The carrier-carrier rate (main of srcc.cpp)\<close>

text \<open>
  The value \<open>main\<close> gives the variable \<open>Deltak0sqr\<close> for the transition \<open>(i, j, f, g)\<close>. The
  state indices are \<open>unsigned int\<close>: 32-bit words, whose sums wrap around.
\<close>

definition Deltak0sqr_ijfg ::
  "real \<Rightarrow> real \<Rightarrow> 32 word \<Rightarrow> 32 word \<Rightarrow> 32 word \<Rightarrow> 32 word \<Rightarrow>
   real \<Rightarrow> real \<Rightarrow> real \<Rightarrow> real \<Rightarrow> real" where
  "Deltak0sqr_ijfg hBar m i j f g Ei Ej Ef Eg =
     (if i + j \<noteq> f + g then 4 * m * (Ei + Ej - Ef - Eg) / (hBar * hBar) else 0)"

text \<open>
  The body of the loop over \<open>theta\<close>, for one sample. The square root of a negative
  \<open>double\<close> is not a number (NaN), the arithmetic that follows keeps a NaN, and a
  comparison with a NaN is false: the value of the variable \<open>q_perpsqr4\<close> is a real
  number or \<open>None\<close>, which stands for NaN. \<open>q_perp_sample\<close> is \<open>q_perp\<close> where the code
  computes it and \<open>None\<close> where it does not. \<open>theta_accumulate\<close> takes the value of
  \<open>q_perpsqr4\<close> and the accumulator \<open>Wijfg\<close> before the pass and returns the accumulator
  after the pass, or the failure of a lookup; \<open>theta_pass\<close> is the whole pass. The code
  looks the form factor up twice with the same arguments, the model once; C++ leaves
  the order of the lookups open, the model makes the one of the form factor first.
\<close>

definition q_perpsqr4 :: "real \<Rightarrow> real \<Rightarrow> real \<Rightarrow> real option" where
  "q_perpsqr4 kij Deltak0sqr theta =
     (if kij * kij + Deltak0sqr < 0 then None
      else Some (2 * kij * kij + Deltak0sqr
                 - 2 * kij * sqrt (kij * kij + Deltak0sqr) * cos theta))"

definition q_perp_sample :: "real option \<Rightarrow> real option" where
  "q_perp_sample q_perpsqr4_value =
     (case q_perpsqr4_value of
        None \<Rightarrow> None
      | Some x \<Rightarrow> if x \<ge> 0 then Some (sqrt x / 2) else None)"

definition theta_accumulate ::
  "real \<Rightarrow> real \<Rightarrow> data11 list \<Rightarrow> data11 list \<Rightarrow> nat \<Rightarrow> real \<Rightarrow> real \<Rightarrow>
   real option \<Rightarrow> real \<Rightarrow> failure + real" where
  "theta_accumulate e epsilon Aijfg PIii nq P kj q_perpsqr4_value Wijfg =
     (case q_perp_sample q_perpsqr4_value of
        None \<Rightarrow> Inr Wijfg
      | Some q_perp \<Rightarrow>
          (case lookup_ff Aijfg q_perp nq of
             Inl err \<Rightarrow> Inl err
           | Inr ff \<Rightarrow>
               (case lookup_PI PIii q_perp nq of
                  Inl err \<Rightarrow> Inl err
                | Inr PIq \<Rightarrow>
                    Inr (Wijfg
                         + gsl_pow_2 (ff / (q_perp + 2 * pi * e * e * PIq * ff / (4 * pi * epsilon)))
                           * P * kj))))"

definition theta_pass ::
  "real \<Rightarrow> real \<Rightarrow> data11 list \<Rightarrow> data11 list \<Rightarrow> nat \<Rightarrow> real \<Rightarrow> real \<Rightarrow> real \<Rightarrow> real \<Rightarrow>
   real \<Rightarrow> real \<Rightarrow> failure + real" where
  "theta_pass e epsilon Aijfg PIii nq Deltak0sqr kij P kj theta Wijfg =
     theta_accumulate e epsilon Aijfg PIii nq P kj (q_perpsqr4 kij Deltak0sqr theta) Wijfg"

section \<open>The carrier-LO-phonon rate (main of srelo.cpp)\<close>

text \<open>
  The cast \<open>(float)n\<close> of an unsigned integer: the nearest number with a 24-bit
  significand, the even one of two that are equally near (IEEE 754 single precision,
  round to nearest). \<open>bitlen n\<close> is the number of binary digits of \<open>n\<close>.
\<close>

fun bitlen :: "nat \<Rightarrow> nat" where
  "bitlen n = (if n = 0 then 0 else Suc (bitlen (n div 2)))"

declare bitlen.simps [simp del]

definition to_float :: "nat \<Rightarrow> nat" where
  "to_float n =
     (let p = bitlen n - 24; q = n div 2 ^ p; r = n mod 2 ^ p
      in if 2 * r > 2 ^ p \<or> (2 * r = 2 ^ p \<and> odd q) then (q + 1) * 2 ^ p else q * 2 ^ p)"

text \<open>
  The initial wavevectors of the loop over \<open>iki\<close>: \<open>dki = kimax/((float)nki)\<close> and
  \<open>ki = dki*iki\<close> (\<open>ki_sample\<close>), in the order the loop visits them (\<open>ki_samples\<close>). The
  counter \<open>iki\<close> is an \<open>unsigned int\<close> and \<open>nki\<close> a \<open>size_t\<close>: a 32-bit counter never
  reaches an \<open>nki\<close> of \<open>2\<^sup>3\<^sup>2\<close> or more, the loop does not end then and the result is
  \<open>None\<close>.
\<close>

definition ki_sample :: "real \<Rightarrow> nat \<Rightarrow> nat \<Rightarrow> real" where
  "ki_sample kimax nki iki = (let dki = kimax / real (to_float nki) in dki * real iki)"

definition ki_samples :: "real \<Rightarrow> nat \<Rightarrow> real list option" where
  "ki_samples kimax nki =
     (if nki < 2 ^ 32 then Some (map (ki_sample kimax nki) [0..<nki]) else None)"





section \<open>Theorems\<close>

subsection \<open>Input validation\<close>

text \<open>
  C9. \<open>check_c_interval_0_1\<close> throws a \<open>domain_error\<close> whose message names the value
  if and only if the value is strictly below 0 or strictly above 1 (0 and 1 are
  accepted); \<open>check_positive\<close> throws if and only if the value is at most 0;
  \<open>check_not_negative\<close> throws if and only if the value is below 0. Whenever nothing is
  thrown the checked value is unchanged. Nothing is caught or made fatal here: the
  exception is the result handed to the caller.
\<close>

theorem validation_checks_throw_iff:
  "(check_c_interval_0_1 x =
      (if x < 0 \<or> 1 < x
       then Inl (domain_error [Text ''Value ('', Value x,
                               Text '') lies outside the closed interval [0,1].''])
       else Inr x))
   \<and> (isl (check_c_interval_0_1 x) \<longleftrightarrow> x < 0 \<or> 1 < x)
   \<and> (check_positive x =
      (if x \<le> 0
       then Inl (domain_error [Text ''Nonpositive value ('', Value x, Text '') detected.''])
       else Inr x))
   \<and> (isl (check_positive x) \<longleftrightarrow> x \<le> 0)
   \<and> (check_not_negative x =
      (if x < 0
       then Inl (domain_error [Text ''Negative value ('', Value x, Text '') detected.''])
       else Inr x))
   \<and> (isl (check_not_negative x) \<longleftrightarrow> x < 0)"
  by (simp add: check_c_interval_0_1_def check_positive_def check_not_negative_def)

theorem validation_checks_throw_iff_witness:
  "check_c_interval_0_1 0 = Inr 0 \<and> check_c_interval_0_1 1 = Inr 1
   \<and> isl (check_c_interval_0_1 2) \<and> isl (check_c_interval_0_1 (- 1))
   \<and> isl (check_positive 0) \<and> check_positive 3 = Inr 3
   \<and> check_not_negative 0 = Inr 0 \<and> isl (check_not_negative (- 1))"
  using validation_checks_throw_iff [of 0] validation_checks_throw_iff [of 1]
    validation_checks_throw_iff [of 2] validation_checks_throw_iff [of "- 1"]
    validation_checks_throw_iff [of 3]
  by simp

subsection \<open>Table lookups\<close>

text \<open>
  The two lookups are the same code on two tables, so every fact about \<open>lookup_ff\<close>
  holds of \<open>lookup_PI\<close>.
\<close>

lemma lookup_PI_eq: "lookup_PI t q nq = lookup_ff t q nq"
  by (simp add: lookup_PI_def lookup_ff_def)

lemma increasing_q_nth:
  "increasing_q t \<Longrightarrow> i < j \<Longrightarrow> j < length t \<Longrightarrow> a (t ! i) < a (t ! j)"
  by (simp add: increasing_q_def sorted_wrt_iff_nth_less)

lemma increasing_q_nth_le:
  "increasing_q t \<Longrightarrow> i \<le> j \<Longrightarrow> j < length t \<Longrightarrow> a (t ! i) \<le> a (t ! j)"
  using increasing_q_nth [of t i j] by (cases "i = j") auto

lemma increasing_q_last:
  assumes "increasing_q t" "d \<in> set t"
  shows "a d \<le> a (last t)"
proof -
  from assms(2) obtain i where i: "i < length t" "d = t ! i"
    by (auto simp: in_set_conv_nth)
  then have "t \<noteq> []" by auto
  then have "last t = t ! (length t - 1)" by (rule last_conv_nth)
  with increasing_q_nth_le [OF assms(1), of i "length t - 1"] i show ?thesis by simp
qed

lemma scan_above_stops:
  assumes "0 \<le> i" "i \<le> j" "j < int (length t)"
    "\<forall>k. i \<le> k \<and> k < j \<longrightarrow> a (t ! nat k) \<le> q" "q < a (t ! nat j)"
  shows "scan_above t q i = Inr j"
  using assms
proof (induction "nat (j - i)" arbitrary: i)
  case 0
  then have "i = j" by simp
  with 0 show ?case by (subst scan_above.simps) simp
next
  case (Suc n)
  then have lt: "i < j" by linarith
  with Suc.prems have "a (t ! nat i) \<le> q" by simp
  moreover have "scan_above t q (i + 1) = Inr j"
    using Suc lt by (intro Suc.hyps(1)) auto
  ultimately show ?case using Suc.prems lt by (subst scan_above.simps) simp
qed

lemma scan_above_overruns:
  assumes "0 \<le> i" "i \<le> int (length t)"
    "\<forall>k. i \<le> k \<and> k < int (length t) \<longrightarrow> a (t ! nat k) \<le> q"
  shows "scan_above t q i = Inl (Out_of_bounds (int (length t)))"
  using assms
proof (induction "nat (int (length t) - i)" arbitrary: i)
  case 0
  then have "i = int (length t)" by simp
  then show ?case by (subst scan_above.simps) simp
next
  case (Suc n)
  then have lt: "i < int (length t)" by linarith
  with Suc.prems have "a (t ! nat i) \<le> q" by simp
  moreover have "scan_above t q (i + 1) = Inl (Out_of_bounds (int (length t)))"
    using Suc lt by (intro Suc.hyps(1)) auto
  ultimately show ?case using Suc.prems lt by (subst scan_above.simps) simp
qed

lemma scan_above_bracket:
  assumes inc: "increasing_q t" and j: "Suc j < length t"
    and lo: "a (t ! j) \<le> q" and hi: "q < a (t ! Suc j)"
  shows "scan_above t q 0 = Inr (int (Suc j))"
proof (rule scan_above_stops)
  show "\<forall>k. 0 \<le> k \<and> k < int (Suc j) \<longrightarrow> a (t ! nat k) \<le> q"
  proof (intro allI impI)
    fix k :: int assume k: "0 \<le> k \<and> k < int (Suc j)"
    then have "nat k \<le> j" by linarith
    from increasing_q_nth_le [OF inc this] j have "a (t ! nat k) \<le> a (t ! j)" by simp
    with lo show "a (t ! nat k) \<le> q" by simp
  qed
  have "nat (int (Suc j)) = Suc j" by (rule nat_int)
  then show "q < a (t ! nat (int (Suc j)))" using hi by (simp only:)
qed (use j in auto)

lemma lookup_ff_bracket:
  assumes inc: "increasing_q t" and j: "Suc j < length t"
    and lo: "a (t ! j) \<le> q" and hi: "q < a (t ! Suc j)"
  shows "lookup_ff t q (length t) = Inr (interpolate (t ! j) (t ! Suc j) q)"
proof -
  have "t \<noteq> []" using j by auto
  have "a (t ! Suc j) \<le> a (t ! (length t - 1))"
    using increasing_q_nth_le [OF inc, of "Suc j" "length t - 1"] j by simp
  with hi have top: "\<not> q > a (t ! (length t - 1))" by simp
  have nat1: "nat (int (length t) - 1) = length t - 1" by simp
  have nat2: "nat (1 + int j) = Suc j" by simp
  show ?thesis
    using j top scan_above_bracket [OF assms] \<open>t \<noteq> []\<close>
    by (simp add: lookup_ff_def table_at_def nat1 nat2)
qed

lemma interpolate_at_lo: "interpolate lo hi (a lo) = b lo"
  by (simp add: interpolate_def)

lemma interpolate_between:
  assumes "a lo < q" "q < a hi"
  shows "min (b lo) (b hi) \<le> interpolate lo hi q \<and> interpolate lo hi q \<le> max (b lo) (b hi)"
proof -
  define s where "s = (q - a lo) / (a hi - a lo)"
  define d where "d = b hi - b lo"
  have s: "0 \<le> s" "s \<le> 1" using assms by (simp_all add: s_def)
  have eq: "interpolate lo hi q = b lo + d * s"
    by (simp add: interpolate_def s_def d_def)
  have bounds: "min 0 d \<le> d * s \<and> d * s \<le> max 0 d"
  proof (cases "0 \<le> d")
    case True
    have "0 \<le> d * s" using True s(1) by (rule mult_nonneg_nonneg)
    moreover have "d * s \<le> d * 1" using s(2) True by (rule mult_left_mono)
    ultimately show ?thesis using True by simp
  next
    case False
    then have neg: "d \<le> 0" by simp
    have "d * s \<le> 0" using neg s(1) by (rule mult_nonpos_nonneg)
    moreover have "d * 1 \<le> d * s" using s(2) neg by (rule mult_left_mono_neg)
    ultimately show ?thesis using neg by (simp only: mult_1_right min_def max_def) auto
  qed
  have "min (b lo) (b hi) = b lo + min 0 d" "max (b lo) (b hi) = b lo + max 0 d"
    by (simp_all add: d_def min_def max_def)
  with bounds show ?thesis by (simp add: eq)
qed

lemma lookup_ff_last:
  assumes inc: "increasing_q t" and ne: "t \<noteq> []"
  shows "lookup_ff t (a (last t)) (length t) = Inl (Out_of_bounds (int (length t)))"
proof -
  have l: "last t = t ! (length t - 1)" using ne by (rule last_conv_nth)
  have "\<forall>k. 0 \<le> k \<and> k < int (length t) \<longrightarrow> a (t ! nat k) \<le> a (last t)"
    using increasing_q_last [OF inc] by auto
  then have "scan_above t (a (last t)) 0 = Inl (Out_of_bounds (int (length t)))"
    by (intro scan_above_overruns) auto
  moreover have "nat (int (length t) - 1) = length t - 1" by simp
  ultimately show ?thesis using ne l
    by (simp add: lookup_ff_def table_at_def)
qed

text \<open>
  A query at a stored wavevector other than the last returns the stored value, and a
  query strictly between two neighbours returns their linear interpolation, which lies
  between the two stored values.
\<close>

lemma lookup_ff_at_stored:
  assumes "increasing_q t" "Suc j < length t"
  shows "lookup_ff t (a (t ! j)) (length t) = Inr (b (t ! j))"
  using lookup_ff_bracket [OF assms, of "a (t ! j)"] increasing_q_nth [OF assms(1), of j "Suc j"]
    assms(2)
  by (simp add: interpolate_at_lo)

lemma lookup_ff_strictly_between:
  assumes "increasing_q t" "Suc j < length t" "a (t ! j) < q" "q < a (t ! Suc j)"
  shows "\<exists>v. lookup_ff t q (length t) = Inr v \<and> v = interpolate (t ! j) (t ! Suc j) q
           \<and> min (b (t ! j)) (b (t ! Suc j)) \<le> v \<and> v \<le> max (b (t ! j)) (b (t ! Suc j))"
  using lookup_ff_bracket [OF assms(1,2), of q] assms(3,4)
    interpolate_between [OF assms(3,4)]
  by simp

text \<open>
  C7. A form-factor or polarizability lookup whose query is strictly greater than the
  largest wavevector of the table prints the message \<open>q_perp>maximum allowed q!\<close> and
  exits: it returns no value, so nothing is extrapolated. (The exit status the code
  passes is 0.)
\<close>

theorem lookup_beyond_table_is_fatal:
  assumes "t \<noteq> []" and "Max (a ` set t) < q"
  shows "lookup_ff t q (length t) = Inl (Exit (''q_perp>maximum allowed q!'' @ [CHR 0x0A]) 0)
       \<and> lookup_PI t q (length t) = Inl (Exit (''q_perp>maximum allowed q!'' @ [CHR 0x0A]) 0)"
proof -
  have l: "last t = t ! (length t - 1)" using assms(1) by (rule last_conv_nth)
  have "a (last t) \<le> Max (a ` set t)" using assms(1) by simp
  with assms(2) have "a (last t) < q" by simp
  moreover have "nat (int (length t) - 1) = length t - 1" by simp
  ultimately show ?thesis using assms(1) l
    by (simp add: lookup_PI_eq lookup_ff_def table_at_def)
qed

theorem lookup_beyond_table_is_fatal_witness:
  "lookup_ff [\<lparr>a = 0, b = 1\<rparr>, \<lparr>a = 1, b = 3\<rparr>] 2 2
     = Inl (Exit (''q_perp>maximum allowed q!'' @ [CHR 0x0A]) 0)
   \<and> lookup_PI [\<lparr>a = 0, b = 1\<rparr>, \<lparr>a = 1, b = 3\<rparr>] 2 2
     = Inl (Exit (''q_perp>maximum allowed q!'' @ [CHR 0x0A]) 0)"
  using lookup_beyond_table_is_fatal [of "[\<lparr>a = 0, b = 1\<rparr>, \<lparr>a = 1, b = 3\<rparr>]" 2]
  by (simp add: numeral_2_eq_2)

text \<open>
  C3. A query equal to the last stored wavevector passes the range test (only a query
  strictly above it is fatal), but the scan \<open>while(q_perp >= a[iq]) iq++\<close> then steps
  over every entry of the table and reads the entry after the last one, outside the
  block: the stored value is not returned. On the table \<open>(0, 1), (1, 3)\<close> the query
  \<open>1\<close> ends in a read of entry 2; the first entry's query \<open>0\<close> returns the stored \<open>1\<close>.
\<close>

theorem lookup_at_last_entry_reads_past_table:
  "lookup_ff [\<lparr>a = 0, b = 1\<rparr>, \<lparr>a = 1, b = 3\<rparr>] 1 2 = Inl (Out_of_bounds 2)
   \<and> lookup_PI [\<lparr>a = 0, b = 1\<rparr>, \<lparr>a = 1, b = 3\<rparr>] 1 2 = Inl (Out_of_bounds 2)
   \<and> lookup_ff [\<lparr>a = 0, b = 1\<rparr>, \<lparr>a = 1, b = 3\<rparr>] 0 2 = Inr 1"
  using lookup_ff_last [of "[\<lparr>a = 0, b = 1\<rparr>, \<lparr>a = 1, b = 3\<rparr>]"]
    lookup_ff_at_stored [of "[\<lparr>a = 0, b = 1\<rparr>, \<lparr>a = 1, b = 3\<rparr>]" 0]
  by (simp add: lookup_PI_eq increasing_q_def numeral_2_eq_2)

subsection \<open>The carrier-carrier matrix element\<close>

lemma exp_1000_overflows: "overflow_threshold \<le> exp (1000::real)"
proof -
  have "(3 / 2 :: real) \<le> exp (1 / 2)"
    using exp_ge_add_one_self [of "1 / 2 :: real"] by simp
  then have "(3 / 2 :: real) ^ 16 \<le> exp (1 / 2) ^ 16"
    by (intro power_mono) simp_all
  moreover have "(2::real) ^ 9 \<le> (3 / 2) ^ 16" by (simp add: power_divide)
  ultimately have "(2::real) ^ 9 \<le> exp (1 / 2) ^ 16" by linarith
  then have "((2::real) ^ 9) ^ 125 \<le> (exp (1 / 2) ^ 16) ^ 125"
    by (intro power_mono) simp_all
  then have "(2::real) ^ (9 * 125) \<le> exp (1 / 2) ^ (16 * 125)"
    by (simp only: power_mult)
  also have "exp (1 / 2 :: real) ^ (16 * 125) = exp 1000"
    using exp_of_nat_mult [of 2000 "1 / 2 :: real"] by simp
  finally have "(2::real) ^ 1125 \<le> exp 1000" by simp
  moreover have "(2::real) ^ 1024 \<le> 2 ^ 1125" by (intro power_increasing) simp_all
  moreover have "overflow_threshold \<le> 2 ^ 1024" by (simp add: overflow_threshold_def)
  ultimately show ?thesis by linarith
qed

lemma rnd_exp_overflow: "1000 \<le> x \<Longrightarrow> rnd (exp x) = PInf"
proof -
  assume "1000 \<le> x"
  then have "exp (1000::real) \<le> exp x" by simp
  with exp_1000_overflows have "overflow_threshold \<le> exp x" by linarith
  then show ?thesis by (simp add: rnd_def)
qed

lemma rnd_small: "\<bar>x\<bar> < overflow_threshold \<Longrightarrow> rnd x = Num x"
  by (auto simp: rnd_def)

lemma overflow_threshold_large: "2 ^ 1023 < overflow_threshold"
  by (simp add: overflow_threshold_def)

lemma find_exp_qz_1000: "find_exp_qz 1000 [0, 1, 2] = [Num 1, PInf, PInf]"
proof -
  have "\<bar>1::real\<bar> < overflow_threshold" using overflow_threshold_large by simp 
  then have "rnd 1 = Num 1" by (rule rnd_small)
  then show ?thesis by (simp add: find_exp_qz_def rnd_exp_overflow)
qed

lemma rnd_bounded: "\<bar>x\<bar> \<le> M \<Longrightarrow> M < overflow_threshold \<Longrightarrow> rnd x = Num x"
  by (rule rnd_small) simp

lemma abs_sum_le_total:
  fixes f g :: "nat \<Rightarrow> real"
  assumes "S \<subseteq> {..<n}" and "\<And>k. k < n \<Longrightarrow> \<bar>f k\<bar> \<le> g k"
  shows "\<bar>\<Sum>k\<in>S. f k\<bar> \<le> (\<Sum>k<n. g k)"
proof -
  have "\<bar>\<Sum>k\<in>S. f k\<bar> \<le> (\<Sum>k\<in>S. \<bar>f k\<bar>)" by (rule sum_abs)
  also have "\<dots> \<le> (\<Sum>k\<in>S. g k)" using assms by (intro sum_mono) auto
  also have "\<dots> \<le> (\<Sum>k<n. g k)"
  proof (rule sum_mono2)
    show "finite {..<n}" by simp
    show "S \<subseteq> {..<n}" by (rule assms(1))
    show "0 \<le> g b" if "b \<in> {..<n} - S" for b
      using assms(2) [of b] that abs_ge_zero [of "f b"] by auto
  qed
  finally show ?thesis .
qed

lemma Cif_p_loop_length [simp]: "length (Cif_p_loop n psi e dz C) = length C"
  by (induction n arbitrary: C) simp_all

lemma Cif_p_loop_above: "n \<le> i \<Longrightarrow> Cif_p_loop n psi e dz C ! i = C ! i"
  by (induction n arbitrary: C) simp_all

lemma Cif_p_loop_Num:
  assumes "\<And>k. k < n \<Longrightarrow> dmul (ddiv (Num (psi ! k)) (e ! k)) (Num dz) = Num (t k)"
    and "C ! n = Num c" and "n < length C" and "i \<le> n"
    and "\<And>j. j \<le> n \<Longrightarrow> \<bar>c + (\<Sum>k = j..<n. t k)\<bar> < overflow_threshold"
  shows "Cif_p_loop n psi e dz C ! i = Num (c + (\<Sum>k = i..<n. t k))"
  using assms
proof (induction n arbitrary: C c)
  case 0
  then show ?case by simp
next
  case (Suc n)
  let ?C = "C[n := dadd (C ! (n + 1)) (dmul (ddiv (Num (psi ! n)) (e ! n)) (Num dz))]"
  have tn: "dmul (ddiv (Num (psi ! n)) (e ! n)) (Num dz) = Num (t n)"
    by (rule Suc.prems(1)) simp
  have "\<bar>c + (\<Sum>k = n..<Suc n. t k)\<bar> < overflow_threshold" by (rule Suc.prems(5)) simp
  then have "rnd (c + t n) = Num (c + t n)" by (intro rnd_small) simp
  then have upd: "?C ! n = Num (c + t n)"
    using Suc.prems(2,3) by (simp add: tn)
  show ?case
  proof (cases "i = Suc n")
    case True
    have "Cif_p_loop (Suc n) psi e dz C ! Suc n = C ! Suc n"
      by (rule Cif_p_loop_above) simp
    then show ?thesis using True Suc.prems(2) by simp
  next
    case False
    with Suc.prems(4) have i: "i \<le> n" by simp
    have "Cif_p_loop n psi e dz ?C ! i = Num ((c + t n) + (\<Sum>k = i..<n. t k))"
    proof (rule Suc.IH)
      show "dmul (ddiv (Num (psi ! k)) (e ! k)) (Num dz) = Num (t k)" if "k < n" for k
        using that by (intro Suc.prems(1)) simp
      show "?C ! n = Num (c + t n)" by (rule upd)
      show "n < length ?C" using Suc.prems(3) by simp
      show "i \<le> n" by (rule i)
      show "\<bar>c + t n + (\<Sum>k = j..<n. t k)\<bar> < overflow_threshold" if "j \<le> n" for j
        using Suc.prems(5) [of j] that by (simp add: add.assoc add.commute)
    qed
    then show ?thesis using i by (simp add: add.assoc add.commute)
  qed
qed


lemma Cif_m_loop_length [simp]: "length (Cif_m_loop iz nz psi e dz C) = length C"
proof (induction iz nz psi e dz C rule: Cif_m_loop.induct)
  case (1 iz nz psi e dz C)
  then show ?case by (subst Cif_m_loop.simps) simp
qed

lemma Cif_m_loop_Num:
  assumes "\<And>k. Suc k < nz \<Longrightarrow> dmul (dmul (Num (psi ! k)) (e ! k)) (Num dz) = Num (t k)"
    and "0 < iz" and "iz \<le> nz" and "length C = nz" and "C ! (iz - 1) = Num c" and "i < nz"
    and "\<And>j. iz \<le> j \<Longrightarrow> j < nz \<Longrightarrow> \<bar>c + (\<Sum>k = iz - 1..<j. t k)\<bar> < overflow_threshold"
  shows "Cif_m_loop iz nz psi e dz C ! i =
           (if i < iz then C ! i else Num (c + (\<Sum>k = iz - 1..<i. t k)))"
  using assms
proof (induction iz nz psi e dz C arbitrary: c rule: Cif_m_loop.induct)
  case (1 iz nz psi e dz C)
  show ?case
  proof (cases "iz < nz")
    case False
    with "1.prems" show ?thesis by (subst Cif_m_loop.simps) simp
  next
    case True
    let ?C = "C[iz := dadd (C ! (iz - 1)) (dmul (dmul (Num (psi ! (iz - 1))) (e ! (iz - 1))) (Num dz))]"
    have tn: "dmul (dmul (Num (psi ! (iz - 1))) (e ! (iz - 1))) (Num dz) = Num (t (iz - 1))"
      using True "1.prems"(2) by (intro "1.prems"(1)) simp
    have one: "(\<Sum>k = iz - 1..<iz. t k) = t (iz - 1)"
    proof -
      have "{iz - 1..<iz} = {iz - 1}" using "1.prems"(2) by auto
      then show ?thesis by simp
    qed
    have "\<bar>c + (\<Sum>k = iz - 1..<iz. t k)\<bar> < overflow_threshold"
      using True by (intro "1.prems"(7)) simp_all
    then have "rnd (c + t (iz - 1)) = Num (c + t (iz - 1))"
      unfolding one by (rule rnd_small)
    then have upd: "?C ! iz = Num (c + t (iz - 1))"
      using True "1.prems"(4,5) tn by simp
    have split: "(\<Sum>k = iz - 1..<j. t k) = t (iz - 1) + (\<Sum>k = iz..<j. t k)" if "iz \<le> j" for j
      using that "1.prems"(2) sum.atLeast_Suc_lessThan [of "iz - 1" j t] by simp
    have "Cif_m_loop iz nz psi e dz C ! i = Cif_m_loop (iz + 1) nz psi e dz ?C ! i"
      using True by (subst Cif_m_loop.simps) simp
    also have "\<dots> = (if i < iz + 1 then ?C ! i
                     else Num (c + t (iz - 1) + (\<Sum>k = iz + 1 - 1..<i. t k)))"
    proof (rule "1.IH" [OF True])
      show "dmul (dmul (Num (psi ! k)) (e ! k)) (Num dz) = Num (t k)" if "Suc k < nz" for k
        using that by (rule "1.prems"(1))
      show "0 < iz + 1" by simp
      show "iz + 1 \<le> nz" using True by simp
      show "length ?C = nz" using "1.prems"(4) by simp
      show "?C ! (iz + 1 - 1) = Num (c + t (iz - 1))" using upd by simp
      show "i < nz" by (rule "1.prems"(6))
      show "\<bar>c + t (iz - 1) + (\<Sum>k = iz + 1 - 1..<j. t k)\<bar> < overflow_threshold"
        if "iz + 1 \<le> j" "j < nz" for j
        using "1.prems"(7) [of j] that split [of j] by (simp add: add.assoc)
    qed
    also have "\<dots> = (if i < iz then C ! i else Num (c + (\<Sum>k = iz - 1..<i. t k)))"
    proof (cases "i < iz")
      case True
      then show ?thesis by simp
    next
      case False
      then have le: "iz \<le> i" by simp
      show ?thesis
      proof (cases "i = iz")
        case True
        then show ?thesis using upd one by simp
      next
        case False
        with le have "iz < i" by simp
        then show ?thesis using split [OF le] by (simp add: add.assoc)
      qed
    qed
    finally show ?thesis .
  qed
qed


lemma uniform_grid_nth:
  "uniform_grid z \<Longrightarrow> i < length z \<Longrightarrow> z ! i = z ! 0 + real i * (z ! 1 - z ! 0)"
  unfolding uniform_grid_def by blast

lemma uniform_grid_step: "uniform_grid z \<Longrightarrow> 0 < z ! 1 - z ! 0"
  unfolding uniform_grid_def by blast

lemma uniform_grid_length: "uniform_grid z \<Longrightarrow> 2 \<le> length z"
  unfolding uniform_grid_def by blast

lemma uniform_grid_mono:
  assumes "uniform_grid z" "i \<le> j" "j < length z"
  shows "z ! i \<le> z ! j"
proof -
  have "real i * (z ! 1 - z ! 0) \<le> real j * (z ! 1 - z ! 0)"
    using assms(2) uniform_grid_step [OF assms(1)] by (intro mult_right_mono) simp_all
  moreover have "z ! i = z ! 0 + real i * (z ! 1 - z ! 0)"
    using assms by (intro uniform_grid_nth) simp_all
  moreover have "z ! j = z ! 0 + real j * (z ! 1 - z ! 0)"
    using assms by (intro uniform_grid_nth) simp_all
  ultimately show ?thesis by linarith
qed

text \<open>
  The identity behind the accumulators, in exact arithmetic: on an increasing grid the
  prefix sum of \<open>psi * exp(qz) * dz\<close> over the points before \<open>iz0\<close>, divided by
  \<open>exp(q z[iz0])\<close>, plus the suffix sum of \<open>psi / exp(qz) * dz\<close> from \<open>iz0\<close> on, times
  \<open>exp(q z[iz0])\<close>, is the brute-force sum.
\<close>

lemma accumulator_identity:
  fixes psi ex :: "nat \<Rightarrow> real"
  assumes mono: "\<And>i j. i \<le> j \<Longrightarrow> j < nz \<Longrightarrow> zz i \<le> zz j"
    and iz0: "iz0 < nz"
    and ex: "\<And>k. k < nz \<Longrightarrow> ex k = exp (q * (zz k - zz 0))"
  shows "(\<Sum>k < iz0. psi k * ex k * dz) / ex iz0 + (\<Sum>k = iz0..<nz. psi k / ex k * dz) * ex iz0
       = (\<Sum>k < nz. psi k * exp (- q * \<bar>zz k - zz iz0\<bar>) * dz)"
proof -
  have below: "psi k * ex k * dz / ex iz0 = psi k * exp (- q * \<bar>zz k - zz iz0\<bar>) * dz"
    if "k < iz0" for k
  proof -
    have "zz k \<le> zz iz0" using that iz0 by (intro mono) simp_all
    then have "- q * \<bar>zz k - zz iz0\<bar> = q * (zz k - zz 0) - q * (zz iz0 - zz 0)"
      by (simp add: algebra_simps)
    then have "exp (- q * \<bar>zz k - zz iz0\<bar>) = ex k / ex iz0"
      using that iz0 by (simp add: ex exp_diff)
    then show ?thesis by simp
  qed
  have above: "psi k / ex k * dz * ex iz0 = psi k * exp (- q * \<bar>zz k - zz iz0\<bar>) * dz"
    if "iz0 \<le> k" "k < nz" for k
  proof -
    have "zz iz0 \<le> zz k" using that by (intro mono) simp_all
    then have "- q * \<bar>zz k - zz iz0\<bar> = q * (zz iz0 - zz 0) - q * (zz k - zz 0)"
      by (simp add: algebra_simps)
    then have "exp (- q * \<bar>zz k - zz iz0\<bar>) = ex iz0 / ex k"
      using that iz0 by (simp add: ex exp_diff)
    then show ?thesis by simp
  qed
  have "(\<Sum>k < iz0. psi k * ex k * dz) / ex iz0 + (\<Sum>k = iz0..<nz. psi k / ex k * dz) * ex iz0
      = (\<Sum>k < iz0. psi k * ex k * dz / ex iz0)
        + (\<Sum>k = iz0..<nz. psi k / ex k * dz * ex iz0)"
    by (simp add: sum_divide_distrib sum_distrib_right)
  also have "\<dots> = (\<Sum>k < iz0. psi k * exp (- q * \<bar>zz k - zz iz0\<bar>) * dz)
        + (\<Sum>k = iz0..<nz. psi k * exp (- q * \<bar>zz k - zz iz0\<bar>) * dz)"
    using below above by simp
  also have "\<dots> = (\<Sum>k < nz. psi k * exp (- q * \<bar>zz k - zz iz0\<bar>) * dz)"
    using iz0 sum.atLeastLessThan_concat [of 0 iz0 nz
        "\<lambda>k. psi k * exp (- q * \<bar>zz k - zz iz0\<bar>) * dz"]
    by (simp add: atLeast0LessThan)
  finally show ?thesis .
qed


text \<open>
  As long as nothing overflows the code computes that identity: for \<open>q \<ge> 0\<close> on a
  uniform grid, with the sum of the \<open>|psi|\<close> (or 1), times the largest exponential
  \<open>exp(q * (z[nz-1] - z[0]))\<close>, times \<open>dz\<close> (or 1) below the overflow threshold, every
  intermediate value is finite and \<open>Iif\<close> is the brute-force sum.
\<close>

lemma Ijg_in_range:
  assumes grid: "uniform_grid z" and len: "length psi = length z" and iz0: "iz0 < length z"
    and q: "0 \<le> q"
    and bound: "max 1 (\<Sum>k < length z. \<bar>psi ! k\<bar>) * exp (q * (z ! (length z - 1) - z ! 0))
                  * max 1 (z ! 1 - z ! 0) < overflow_threshold"
  shows "Ijg q z psi iz0 = Inr (Num (Iif_brute_force q z psi iz0))"
proof -
  define nz where "nz = length z"
  define dz where "dz = z ! 1 - z ! 0"
  define ex where "ex = (\<lambda>k. exp (q * (z ! k - z ! 0)))"
  define T where "T = max 1 (\<Sum>k < nz. \<bar>psi ! k\<bar>)"
  define B where "B = ex (nz - 1)"
  define D where "D = max 1 dz"
  define M where "M = T * B * D"
  define e where "e = find_exp_qz q z"
  define tp where "tp = (\<lambda>k. psi ! k / ex k * dz)"
  define tm where "tm = (\<lambda>k. psi ! k * ex k * dz)"
  have nz: "2 \<le> nz" "iz0 < nz" using uniform_grid_length [OF grid] iz0 by (simp_all add: nz_def)
  have dz: "0 < dz" using uniform_grid_step [OF grid] by (simp add: dz_def)
  have mono: "z ! i \<le> z ! j" if "i \<le> j" "j < nz" for i j
    using uniform_grid_mono [OF grid] that by (simp add: nz_def)
  have M: "M < overflow_threshold" using bound by (simp add: M_def T_def B_def D_def ex_def nz_def dz_def)
  have ex1: "1 \<le> ex k" if "k < nz" for k
  proof -
    have "0 \<le> q * (z ! k - z ! 0)" using q mono [of 0 k] that by simp
    then show ?thesis by (simp add: ex_def)
  qed
  have exB: "ex k \<le> B" if "k < nz" for k
  proof -
    have "z ! k \<le> z ! (nz - 1)" using that nz by (intro mono) simp_all
    then have "q * (z ! k - z ! 0) \<le> q * (z ! (nz - 1) - z ! 0)"
      using q by (intro mult_left_mono) simp_all
    then show ?thesis by (simp add: ex_def B_def)
  qed
  have B1: "1 \<le> B" using ex1 [of "nz - 1"] nz by (simp add: B_def)
  have D1: "1 \<le> D" "dz \<le> D" "0 \<le> D" by (simp_all add: D_def)
  have T1: "1 \<le> T" "0 \<le> T" by (simp_all add: T_def)
  have psiT: "\<bar>psi ! k\<bar> \<le> T" if "k < nz" for k
  proof -
    have "\<bar>psi ! k\<bar> \<le> (\<Sum>j < nz. \<bar>psi ! j\<bar>)"
      using that by (intro member_le_sum) simp_all
    then show ?thesis by (simp add: T_def)
  qed
  have box: "a * b * d \<le> M" if "0 \<le> a" "a \<le> T" "0 \<le> b" "b \<le> B" "0 \<le> d" "d \<le> D" for a b d
  proof -
    have "a * b \<le> T * B" using that by (intro mult_mono) simp_all
    moreover have "0 \<le> T * B" using T1 B1 by simp
    ultimately show ?thesis unfolding M_def using that by (intro mult_mono) simp_all
  qed
  have fin: "rnd x = Num x" if "\<bar>x\<bar> \<le> M" for x
    using that M by (rule rnd_bounded)
  have e_len: "length e = nz" by (simp add: e_def find_exp_qz_def nz_def)
  have e_nth: "e ! k = Num (ex k)" if "k < nz" for k
  proof -
    have "\<bar>ex k\<bar> \<le> M"
      using box [of 1 "ex k" 1] ex1 [OF that] exB [OF that] T1 D1 by simp
    then have "rnd (ex k) = Num (ex k)" by (rule fin)
    then show ?thesis using that by (simp add: e_def find_exp_qz_def nz_def ex_def)
  qed
  have inv: "0 \<le> 1 / ex k" "1 / ex k \<le> 1" if "k < nz" for k
    using ex1 [OF that] by simp_all
  have tp_abs: "\<bar>tp k\<bar> \<le> \<bar>psi ! k\<bar> * dz" if "k < nz" for k
  proof -
    have "\<bar>psi ! k\<bar> * (1 / ex k) \<le> \<bar>psi ! k\<bar> * 1"
      using inv [OF that] by (intro mult_left_mono) simp_all
    then have "\<bar>psi ! k\<bar> / ex k * dz \<le> \<bar>psi ! k\<bar> * dz"
      using dz by (intro mult_right_mono) simp_all
    moreover have "\<bar>tp k\<bar> = \<bar>psi ! k\<bar> / ex k * dz"
      using ex1 [OF that] dz by (simp add: tp_def abs_mult)
    ultimately show ?thesis by simp
  qed
  have tm_abs: "\<bar>tm k\<bar> \<le> \<bar>psi ! k\<bar> * (B * dz)" if "k < nz" for k
  proof -
    have "\<bar>tm k\<bar> = \<bar>psi ! k\<bar> * (ex k * dz)"
      using ex1 [OF that] dz by (simp add: tm_def abs_mult)
    moreover have "ex k * dz \<le> B * dz" using exB [OF that] dz by (intro mult_right_mono) simp_all
    ultimately show ?thesis by (simp add: mult_left_mono)
  qed
  have tp_num: "dmul (ddiv (Num (psi ! k)) (e ! k)) (Num dz) = Num (tp k)" if "k < nz" for k
  proof -
    have "\<bar>psi ! k / ex k\<bar> = \<bar>psi ! k\<bar> * (1 / ex k) * 1"
      using ex1 [OF that] by (simp add: abs_mult)
    also have "\<dots> \<le> M"
      using inv [OF that] psiT [OF that] B1 D1 by (intro box) simp_all
    finally have a: "rnd (psi ! k / ex k) = Num (psi ! k / ex k)" by (rule fin)
    have "\<bar>tp k\<bar> \<le> \<bar>psi ! k\<bar> * 1 * dz" using tp_abs [OF that] by simp
    also have "\<dots> \<le> M" using psiT [OF that] B1 D1 dz by (intro box) simp_all
    finally have b: "rnd (tp k) = Num (tp k)" by (rule fin)
    have "ex k \<noteq> 0" using ex1 [OF that] by simp
    then show ?thesis using a b by (simp add: e_nth [OF that] tp_def)
  qed
  have tm_num: "dmul (dmul (Num (psi ! k)) (e ! k)) (Num dz) = Num (tm k)" if "k < nz" for k
  proof -
    have "\<bar>psi ! k * ex k\<bar> = \<bar>psi ! k\<bar> * ex k * 1"
      using ex1 [OF that] by (simp add: abs_mult)
    also have "\<dots> \<le> M"
      using ex1 [OF that] exB [OF that] psiT [OF that] D1 by (intro box) simp_all
    finally have a: "rnd (psi ! k * ex k) = Num (psi ! k * ex k)" by (rule fin)
    have "\<bar>tm k\<bar> = \<bar>psi ! k\<bar> * ex k * dz"
      using ex1 [OF that] dz by (simp add: tm_def abs_mult)
    also have "\<dots> \<le> M"
      using ex1 [OF that] exB [OF that] psiT [OF that] D1 dz by (intro box) simp_all
    finally have b: "rnd (tm k) = Num (tm k)" by (rule fin)
    show ?thesis using a b by (simp add: e_nth [OF that] tm_def)
  qed
  have total: "(\<Sum>k < nz. \<bar>psi ! k\<bar>) \<le> T" by (simp add: T_def)
  have sum_tp: "\<bar>\<Sum>k\<in>S. tp k\<bar> \<le> T * dz" if "S \<subseteq> {..<nz}" for S
  proof -
    have "\<bar>\<Sum>k\<in>S. tp k\<bar> \<le> (\<Sum>k < nz. \<bar>psi ! k\<bar> * dz)"
      using that tp_abs by (rule abs_sum_le_total)
    also have "\<dots> = (\<Sum>k < nz. \<bar>psi ! k\<bar>) * dz" by (simp add: sum_distrib_right)
    also have "\<dots> \<le> T * dz" using total dz by (intro mult_right_mono) simp_all
    finally show ?thesis .
  qed
  have sum_tm: "\<bar>\<Sum>k\<in>S. tm k\<bar> \<le> T * (B * dz)" if "S \<subseteq> {..<nz}" for S
  proof -
    have "\<bar>\<Sum>k\<in>S. tm k\<bar> \<le> (\<Sum>k < nz. \<bar>psi ! k\<bar> * (B * dz))"
      using that tm_abs by (rule abs_sum_le_total)
    also have "\<dots> = (\<Sum>k < nz. \<bar>psi ! k\<bar>) * (B * dz)" by (simp add: sum_distrib_right)
    also have "\<dots> \<le> T * (B * dz)" using total dz B1 by (intro mult_right_mono) simp_all
    finally show ?thesis .
  qed
  have TdzM: "T * dz \<le> M" using box [of T 1 dz] T1 B1 D1 dz by simp
  have TBdzM: "T * (B * dz) \<le> M" using box [of T B dz] T1 B1 D1 dz by (simp add: mult.assoc)
  \<comment> \<open>the forward accumulator\<close>
  define C0p where "C0p = (replicate nz (Num 0))
      [nz - 1 := dmul (ddiv (Num (psi ! (nz - 1))) (e ! (nz - 1))) (Num dz)]"
  have Cp_eq: "find_Cif_p psi e z = Inr (Cif_p_loop (nz - 1) psi e dz C0p)"
    using nz len e_len by (simp add: find_Cif_p_def Let_def nz_def dz_def C0p_def)
  have C0p_top: "C0p ! (nz - 1) = Num (tp (nz - 1))"
    using nz tp_num [of "nz - 1"] by (simp add: C0p_def)
  have suffix: "tp (nz - 1) + (\<Sum>k = j..<nz - 1. tp k) = (\<Sum>k = j..<nz. tp k)" if "j \<le> nz - 1" for j
  proof -
    obtain n where n: "nz = Suc n" using nz by (cases nz) simp_all
    show ?thesis using that by (simp add: n)
  qed
  have Cp: "Cif_p_loop (nz - 1) psi e dz C0p ! iz0 = Num (\<Sum>k = iz0..<nz. tp k)"
  proof -
    have "Cif_p_loop (nz - 1) psi e dz C0p ! iz0
        = Num (tp (nz - 1) + (\<Sum>k = iz0..<nz - 1. tp k))"
    proof (rule Cif_p_loop_Num)
      show "dmul (ddiv (Num (psi ! k)) (e ! k)) (Num dz) = Num (tp k)" if "k < nz - 1" for k
        using that by (intro tp_num) simp
      show "C0p ! (nz - 1) = Num (tp (nz - 1))" by (rule C0p_top)
      show "nz - 1 < length C0p" using nz by (simp add: C0p_def)
      show "iz0 \<le> nz - 1" using nz by simp
      show "\<bar>tp (nz - 1) + (\<Sum>k = j..<nz - 1. tp k)\<bar> < overflow_threshold" if "j \<le> nz - 1" for j
      proof -
        have "\<bar>\<Sum>k\<in>{j..<nz}. tp k\<bar> \<le> T * dz" by (rule sum_tp) auto
        then show ?thesis using suffix [OF that] TdzM M by simp
      qed
    qed
    then show ?thesis using suffix [of iz0] nz by simp
  qed
  \<comment> \<open>the backward accumulator\<close>
  define C0m where "C0m = (replicate nz (Num 0))[0 := Num 0]"
  have "\<not> length psi < length z - 1" "\<not> length e < length z - 1"
    using len e_len by (simp_all add: nz_def)
  then have Cm_eq: "find_Cif_m psi e z = Inr (Cif_m_loop 1 nz psi e dz C0m)"
    using nz by (simp add: find_Cif_m_def Let_def nz_def dz_def C0m_def)
  have C0m_nth: "C0m ! i = Num 0" if "i < nz" for i
    using that by (simp add: C0m_def nth_list_update)
  have Cm: "Cif_m_loop 1 nz psi e dz C0m ! iz0 = Num (\<Sum>k < iz0. tm k)"
  proof -
    have "Cif_m_loop 1 nz psi e dz C0m ! iz0
        = (if iz0 < 1 then C0m ! iz0 else Num (0 + (\<Sum>k = 1 - 1..<iz0. tm k)))"
    proof (rule Cif_m_loop_Num)
      show "dmul (dmul (Num (psi ! k)) (e ! k)) (Num dz) = Num (tm k)" if "Suc k < nz" for k
        using that by (intro tm_num) simp
      show "(0::nat) < 1" by simp
      show "1 \<le> nz" using nz by simp
      show "length C0m = nz" by (simp add: C0m_def)
      show "C0m ! (1 - 1) = Num 0" using nz by (simp add: C0m_nth)
      show "iz0 < nz" by (rule nz)
      show "\<bar>0 + (\<Sum>k = 1 - 1..<j. tm k)\<bar> < overflow_threshold" if "1 \<le> j" "j < nz" for j
      proof -
        have "\<bar>\<Sum>k\<in>{0..<j}. tm k\<bar> \<le> T * (B * dz)" using that by (intro sum_tm) auto
        then show ?thesis using TBdzM M by simp
      qed
    qed
    then show ?thesis using nz by (auto simp: C0m_nth atLeast0LessThan)
  qed
  \<comment> \<open>the matrix element\<close>
  define cp where "cp = (\<Sum>k = iz0..<nz. tp k)"
  define cm where "cm = (\<Sum>k < iz0. tm k)"
  have e0: "1 \<le> ex iz0" "ex iz0 \<le> B" using ex1 exB nz by simp_all
  have cp_abs: "\<bar>cp\<bar> \<le> T * dz" unfolding cp_def by (rule sum_tp) auto
  have cm_abs: "\<bar>cm\<bar> \<le> T * (B * dz)" unfolding cm_def using nz by (intro sum_tm) auto
  have "\<bar>cm / ex iz0\<bar> \<le> \<bar>cm\<bar>"
  proof -
    have "\<bar>cm\<bar> * (1 / ex iz0) \<le> \<bar>cm\<bar> * 1" using inv [of iz0] nz by (intro mult_left_mono) simp_all
    then show ?thesis using e0 by (simp add: abs_mult)
  qed
  with cm_abs TBdzM have "\<bar>cm / ex iz0\<bar> \<le> M" by linarith
  then have r1: "rnd (cm / ex iz0) = Num (cm / ex iz0)" by (rule fin)
  have "\<bar>cp * ex iz0\<bar> = \<bar>cp\<bar> * ex iz0" using e0 by (simp add: abs_mult)
  also have "\<dots> \<le> (T * dz) * B" using cp_abs e0 T1 dz by (intro mult_mono) simp_all
  also have "\<dots> \<le> M" using TBdzM by (simp add: mult.commute mult.left_commute)
  finally have r2: "rnd (cp * ex iz0) = Num (cp * ex iz0)" by (rule fin)
  have ident: "cm / ex iz0 + cp * ex iz0 = Iif_brute_force q z psi iz0"
  proof -
    have "(\<Sum>k < iz0. psi ! k * ex k * dz) / ex iz0
            + (\<Sum>k = iz0..<nz. psi ! k / ex k * dz) * ex iz0
        = (\<Sum>k < nz. psi ! k * exp (- q * \<bar>z ! k - z ! iz0\<bar>) * dz)"
    proof (rule accumulator_identity [where zz = "\<lambda>k. z ! k" and ex = ex
          and psi = "\<lambda>k. psi ! k"])
      show "z ! i \<le> z ! j" if "i \<le> j" "j < nz" for i j using that by (rule mono)
      show "iz0 < nz" by (rule nz)
      show "ex k = exp (q * (z ! k - z ! 0))" if "k < nz" for k by (simp add: ex_def)
    qed
    then show ?thesis
      by (simp add: cm_def cp_def tm_def tp_def Iif_brute_force_def nz_def dz_def)
  qed
  have "\<bar>Iif_brute_force q z psi iz0\<bar> \<le> T * dz"
  proof -
    have "\<bar>\<Sum>k\<in>{..<nz}. psi ! k * exp (- q * \<bar>z ! k - z ! iz0\<bar>) * dz\<bar>
        \<le> (\<Sum>k < nz. \<bar>psi ! k\<bar> * dz)"
    proof (rule abs_sum_le_total)
      show "{..<nz} \<subseteq> {..<nz}" by simp
      show "\<bar>psi ! k * exp (- q * \<bar>z ! k - z ! iz0\<bar>) * dz\<bar> \<le> \<bar>psi ! k\<bar> * dz" if "k < nz" for k
      proof -
        have "- q * \<bar>z ! k - z ! iz0\<bar> \<le> 0" using q by (simp add: mult_nonneg_nonneg)
        then have "exp (- q * \<bar>z ! k - z ! iz0\<bar>) \<le> 1" by simp
        then have "\<bar>psi ! k\<bar> * exp (- q * \<bar>z ! k - z ! iz0\<bar>) \<le> \<bar>psi ! k\<bar> * 1"
          by (intro mult_left_mono) simp_all
        then have "\<bar>psi ! k\<bar> * exp (- q * \<bar>z ! k - z ! iz0\<bar>) * dz \<le> \<bar>psi ! k\<bar> * dz"
          using dz by (intro mult_right_mono) simp_all
        then show ?thesis using dz by (simp add: abs_mult)
      qed
    qed
    also have "\<dots> = (\<Sum>k < nz. \<bar>psi ! k\<bar>) * dz" by (simp add: sum_distrib_right)
    also have "\<dots> \<le> T * dz" using total dz by (intro mult_right_mono) simp_all
    finally show ?thesis by (simp add: Iif_brute_force_def nz_def dz_def)
  qed
  with TdzM have "\<bar>cm / ex iz0 + cp * ex iz0\<bar> \<le> M" unfolding ident by linarith
  then have r3: "rnd (cm / ex iz0 + cp * ex iz0) = Num (cm / ex iz0 + cp * ex iz0)" by (rule fin)
  have "ex iz0 \<noteq> 0" using e0 by simp
  then have "Iif iz0 (Cif_p_loop (nz - 1) psi e dz C0p) (Cif_m_loop 1 nz psi e dz C0m) e
      = Num (cm / ex iz0 + cp * ex iz0)"
    using r1 r2 r3 Cp Cm by (simp add: Iif_def e_nth [OF nz(2)] cp_def cm_def)
  then show ?thesis
    using Cp_eq Cm_eq ident by (simp add: Ijg_def Let_def e_def [symmetric])
qed


lemma Ijg_in_range_example:
  "Ijg 1 [0, 1, 2] [1, 2, 3] 1 = Inr (Num (2 + 4 * exp (- 1)))"
proof -
  have grid: "uniform_grid [0, 1, 2]"
    by (simp add: uniform_grid_def numeral_3_eq_3 less_Suc_eq)
  have "exp (1::real) \<le> 3" using exp_bound [of 1] by simp
  then have "exp (1::real) * exp 1 \<le> 3 * 3" by (intro mult_mono) simp_all
  then have "exp (2::real) \<le> 9" using exp_add [of "1::real" 1] by simp
  then have "6 * exp (2::real) \<le> 54" by simp
  moreover have "(54::real) < 2 ^ 1023" by simp
  ultimately have "6 * exp (2::real) < overflow_threshold"
    using overflow_threshold_large by linarith
  then have "Ijg 1 [0, 1, 2] [1, 2, 3] 1 = Inr (Num (Iif_brute_force 1 [0, 1, 2] [1, 2, 3] 1))"
    using grid by (intro Ijg_in_range) (simp_all add: numeral_3_eq_3)
  moreover have "Iif_brute_force 1 [0, 1, 2] [1, 2, 3] 1 = 2 + 4 * exp (- 1)"
    by (simp add: Iif_brute_force_def numeral_3_eq_3)
  ultimately show ?thesis by simp
qed

lemma uniform_grid_0_1_2: "uniform_grid [0, 1, 2]"
  by (simp add: uniform_grid_def numeral_3_eq_3 less_Suc_eq)

text \<open>
  C1. The accumulator evaluation does not equal the brute-force sum for every
  \<open>q \<ge> 0\<close>. On the grid \<open>0, 1, 2\<close>, which is uniform (\<open>uniform_grid_0_1_2\<close>), with the
  products \<open>1, 2, 3\<close> and \<open>q = 1000\<close>, the exponentials \<open>exp(q * (z - z[0]))\<close> of the
  second and third point are beyond the range of a \<open>double\<close> and infinite. \<open>Cif_p\<close> is
  then \<open>1, 0, 0\<close> and \<open>Cif_m\<close> is \<open>0, 1, inf\<close>, and at \<open>iz0 = 1\<close> \<open>Iif\<close> is
  \<open>1/inf + 0 * inf\<close>: not a number, where the brute-force sum is \<open>2 + 4 exp(-1000)\<close>.
\<close>

theorem accumulators_overflow_to_NaN:
  "find_exp_qz 1000 [0, 1, 2] = [Num 1, PInf, PInf]
   \<and> find_Cif_p [1, 2, 3] [Num 1, PInf, PInf] [0, 1, 2] = Inr [Num 1, Num 0, Num 0]
   \<and> find_Cif_m [1, 2, 3] [Num 1, PInf, PInf] [0, 1, 2] = Inr [Num 0, Num 1, PInf]
   \<and> Ijg 1000 [0, 1, 2] [1, 2, 3] 1 = Inr NaN
   \<and> Iif_brute_force 1000 [0, 1, 2] [1, 2, 3] 1 = 2 + 4 * exp (- 1000)"
proof -
  have small: "rnd 0 = Num 0" "rnd 1 = Num 1"
    using overflow_threshold_large by (simp_all add: rnd_small)
  have p: "find_Cif_p [1, 2, 3] [Num 1, PInf, PInf] [0, 1, 2] = Inr [Num 1, Num 0, Num 0]"
    by (simp add: find_Cif_p_def numeral_2_eq_2 small)
  have m: "find_Cif_m [1, 2, 3] [Num 1, PInf, PInf] [0, 1, 2] = Inr [Num 0, Num 1, PInf]"
    by (simp add: find_Cif_m_def Cif_m_loop.simps small)
  have "Ijg 1000 [0, 1, 2] [1, 2, 3] 1 = Inr NaN"
    by (simp add: Ijg_def find_exp_qz_1000 p m Iif_def)
  moreover have "Iif_brute_force 1000 [0, 1, 2] [1, 2, 3] 1 = 2 + 4 * exp (- 1000)"
    by (simp add: Iif_brute_force_def numeral_3_eq_3)
  ultimately show ?thesis using p m find_exp_qz_1000 by simp
qed

subsection \<open>The polarizability integral\<close>

lemma PI_P0_bounds:
  assumes "0 \<le> m" "0 \<le> ki"
  shows "0 \<le> PI_P0 hBar m ki q_perp \<and> PI_P0 hBar m ki q_perp \<le> m / (pi * hBar * hBar)"
proof -
  define P where "P = m / (pi * hBar * hBar)"
  have "0 \<le> pi * (hBar * hBar)" by simp
  then have P: "0 \<le> P" using assms(1) by (simp add: P_def mult.assoc)
  show ?thesis
  proof (cases "q_perp > 2 * ki")
    case False
    then show ?thesis using P by (simp add: PI_P0_def P_def)
  next
    case True
    define r where "r = 2 * ki / q_perp"
    have r: "0 \<le> r" "r < 1" using True assms(2) by (simp_all add: r_def)
    have "r * r \<le> 1 * 1" using r by (intro mult_mono) simp_all
    moreover have "0 \<le> r * r" using r by simp
    ultimately have s: "0 \<le> sqrt (1 - r * r)" "sqrt (1 - r * r) \<le> 1" by simp_all
    have "P * sqrt (1 - r * r) \<le> P * 1" using s(2) P by (rule mult_left_mono)
    moreover have "0 \<le> P * sqrt (1 - r * r)" using P s(1) by (rule mult_nonneg_nonneg)
    moreover have "PI_P0 hBar m ki q_perp = P - P * sqrt (1 - r * r)"
      using True by (simp add: PI_P0_def P_def r_def gsl_pow_2_def)
    ultimately show ?thesis unfolding P_def [symmetric] by simp
  qed
qed

lemma cosh_lower_bound: "(1 + \<bar>x\<bar>) / 2 \<le> cosh (x::real)"
proof -
  have "1 + \<bar>x\<bar> \<le> exp \<bar>x\<bar>" by (rule exp_ge_add_one_self)
  also have "\<dots> \<le> exp x + exp (- x)"
    by (cases "0 \<le> x") (simp_all add: less_eq_real_def)
  finally show ?thesis by (simp add: cosh_field_def)
qed

lemma PI_body_dI:
  "fst (PI_body hBar kB e isb q_perp T s) =
     PI_P0 hBar (get_md_0 isb) (k isb (fst s)) q_perp
       / (4 * kB * T * gsl_pow_2 (cosh ((get_Ef isb - fst s) / (2 * kB * T))))"
  by (simp add: PI_body_def Let_def)

lemma PI_body_next:
  "snd (PI_body hBar kB e isb q_perp T s) =
     (fst s + 0.001 * e, snd s + fst (PI_body hBar kB e isb q_perp T s) * (0.001 * e))"
  by (simp add: PI_body_def Let_def)

lemma PI_dI_bounds:
  assumes "0 < kB" "0 < T" "0 \<le> get_md_0 isb" "0 \<le> k isb (fst s)"
  shows "0 \<le> fst (PI_body hBar kB e isb q_perp T s)"
    and "fst (PI_body hBar kB e isb q_perp T s)
          \<le> get_md_0 isb / (pi * hBar * hBar) / (4 * kB * T)
              * (2 / (1 + \<bar>(get_Ef isb - fst s) / (2 * kB * T)\<bar>))"
proof -
  define x where "x = (get_Ef isb - fst s) / (2 * kB * T)"
  define P0 where "P0 = PI_P0 hBar (get_md_0 isb) (k isb (fst s)) q_perp"
  define P where "P = get_md_0 isb / (pi * hBar * hBar)"
  have P0: "0 \<le> P0" "P0 \<le> P"
    using PI_P0_bounds [OF assms(3,4), of hBar q_perp] by (simp_all add: P0_def P_def)
  have kT: "0 < 4 * kB * T" using assms by simp
  have c1: "1 \<le> cosh x" by (rule cosh_real_ge_1)
  have c2: "(1 + \<bar>x\<bar>) / 2 \<le> cosh x" by (rule cosh_lower_bound)
  have "cosh x * 1 \<le> cosh x * cosh x" using c1 by (intro mult_left_mono) simp_all
  then have "cosh x \<le> cosh x * cosh x" by (simp only: mult_1_right)
  with c2 have c3: "(1 + \<bar>x\<bar>) / 2 \<le> cosh x * cosh x" by linarith
  have pos: "0 < (1 + \<bar>x\<bar>) / 2" by simp
  have dI: "fst (PI_body hBar kB e isb q_perp T s) = P0 / (4 * kB * T) / (cosh x * cosh x)"
    by (simp add: PI_body_dI P0_def x_def gsl_pow_2_def)
  have q: "0 \<le> P0 / (4 * kB * T)" using P0(1) kT by simp
  have "0 \<le> cosh x * cosh x" by simp
  with q show "0 \<le> fst (PI_body hBar kB e isb q_perp T s)"
    unfolding dI by (rule divide_nonneg_nonneg)
  have "P0 / (4 * kB * T) / (cosh x * cosh x) \<le> P0 / (4 * kB * T) / ((1 + \<bar>x\<bar>) / 2)"
    using q order_refl pos c3 by (rule frac_le)
  also have "\<dots> = P0 / (4 * kB * T) * (2 / (1 + \<bar>x\<bar>))" by simp
  also have "\<dots> \<le> P / (4 * kB * T) * (2 / (1 + \<bar>x\<bar>))"
    using P0(2) kT by (intro mult_right_mono divide_right_mono) simp_all
  finally show "fst (PI_body hBar kB e isb q_perp T s)
          \<le> get_md_0 isb / (pi * hBar * hBar) / (4 * kB * T)
              * (2 / (1 + \<bar>(get_Ef isb - fst s) / (2 * kB * T)\<bar>))"
    unfolding dI P_def x_def .
qed

lemma PI_after_mu:
  "fst (PI_after hBar kB e isb q_perp T n) = get_E isb + real n * (0.001 * e)"
  by (induction n) (simp_all add: PI_body_next algebra_simps)

lemma PI_after_integral_mono:
  assumes "0 < kB" "0 < T" "0 < e" "0 \<le> get_md_0 isb" "\<forall>mu. 0 \<le> k isb mu"
  shows "snd (PI_after hBar kB e isb q_perp T n) \<le> snd (PI_after hBar kB e isb q_perp T (Suc n))"
proof -
  have "0 \<le> fst (PI_body hBar kB e isb q_perp T (PI_after hBar kB e isb q_perp T n))"
    using assms by (intro PI_dI_bounds(1)) simp_all
  then have "0 \<le> fst (PI_body hBar kB e isb q_perp T (PI_after hBar kB e isb q_perp T n)) * (0.001 * e)"
    using assms(3) by simp
  then show ?thesis by (simp add: PI_body_next)
qed

lemma PI_after_integral_ge_first:
  assumes "0 < kB" "0 < T" "0 < e" "0 \<le> get_md_0 isb" "\<forall>mu. 0 \<le> k isb mu"
  shows "snd (PI_after hBar kB e isb q_perp T 1) \<le> snd (PI_after hBar kB e isb q_perp T (Suc n))"
proof (induction n)
  case 0
  show ?case by simp
next
  case (Suc n)
  then show ?case
    using PI_after_integral_mono [OF assms, of hBar q_perp "Suc n"] by linarith
qed


lemma PI_after_funpow:
  "PI_after hBar kB e isb q_perp T n
     = ((\<lambda>s. snd (PI_body hBar kB e isb q_perp T s)) ^^ n) (get_E isb, 0)"
  by (induction n) simp_all

lemma PI_loop_runs:
  assumes "\<forall>j<n. fst (PI_body hBar kB e isb q_perp T
                      (((\<lambda>s. snd (PI_body hBar kB e isb q_perp T s)) ^^ j) s))
                 > snd (snd (PI_body hBar kB e isb q_perp T
                      (((\<lambda>s. snd (PI_body hBar kB e isb q_perp T s)) ^^ j) s))) / 100"
    and "\<not> fst (PI_body hBar kB e isb q_perp T
                      (((\<lambda>s. snd (PI_body hBar kB e isb q_perp T s)) ^^ n) s))
                 > snd (snd (PI_body hBar kB e isb q_perp T
                      (((\<lambda>s. snd (PI_body hBar kB e isb q_perp T s)) ^^ n) s))) / 100"
  shows "PI_loop hBar kB e isb q_perp T s
           = Some (snd (snd (PI_body hBar kB e isb q_perp T
                      (((\<lambda>s. snd (PI_body hBar kB e isb q_perp T s)) ^^ n) s))))"
  using assms
proof (induction n arbitrary: s)
  case 0
  then show ?case by (subst PI_loop.simps) (simp add: Let_def)
next
  case (Suc n)
  let ?step = "\<lambda>s. snd (PI_body hBar kB e isb q_perp T s)"
  have shift: "(?step ^^ j) (?step s) = (?step ^^ Suc j) s" for j
    using funpow_swap1 [of ?step j s] by simp
  from Suc.prems(1) have first:
    "fst (PI_body hBar kB e isb q_perp T s) > snd (snd (PI_body hBar kB e isb q_perp T s)) / 100"
    by (auto dest: spec [of _ 0])
  have "PI_loop hBar kB e isb q_perp T s = PI_loop hBar kB e isb q_perp T (?step s)"
    using first by (subst PI_loop.simps) (simp add: Let_def)
  also have "\<dots> = Some (snd (snd (PI_body hBar kB e isb q_perp T ((?step ^^ n) (?step s)))))"
  proof (rule Suc.IH)
    show "\<forall>j<n. fst (PI_body hBar kB e isb q_perp T ((?step ^^ j) (?step s)))
                 > snd (snd (PI_body hBar kB e isb q_perp T ((?step ^^ j) (?step s)))) / 100"
      unfolding shift using Suc.prems(1) by auto
    show "\<not> fst (PI_body hBar kB e isb q_perp T ((?step ^^ n) (?step s)))
                 > snd (snd (PI_body hBar kB e isb q_perp T ((?step ^^ n) (?step s)))) / 100"
      unfolding shift using Suc.prems(2) .
  qed
  finally show ?case unfolding shift .
qed

lemma PI_increment_small:
  assumes "0 < kB" "0 < T" "0 < e" "0 \<le> get_md_0 isb" "\<forall>mu. 0 \<le> k isb mu" "0 < c"
  shows "\<exists>N. fst (PI_body hBar kB e isb q_perp T (PI_after hBar kB e isb q_perp T N)) \<le> c"
proof -
  define B where "B = get_md_0 isb / (pi * hBar * hBar) / (4 * kB * T)"
  define dmu where "dmu = 0.001 * e"
  define kT where "kT = 2 * kB * T"
  have dmu: "0 < dmu" using assms(3) by (simp add: dmu_def)
  have kT: "0 < kT" using assms(1,2) by (simp add: kT_def)
  have "0 \<le> pi * (hBar * hBar)" by simp
  then have "0 \<le> get_md_0 isb / (pi * hBar * hBar)"
    using assms(4) by (simp add: mult.assoc)
  moreover have "0 \<le> 4 * kB * T" using assms(1,2) by simp
  ultimately have B: "0 \<le> B" unfolding B_def by (rule divide_nonneg_nonneg)
  obtain N :: nat where N: "(\<bar>get_Ef isb - get_E isb\<bar> + kT * (2 * B / c)) / dmu \<le> real N"
    using real_arch_simple by blast
  define x where "x = (get_Ef isb - (get_E isb + real N * dmu)) / kT"
  have "\<bar>get_Ef isb - get_E isb\<bar> + kT * (2 * B / c) \<le> real N * dmu"
    using N dmu by (simp add: pos_divide_le_eq)
  then have "kT * (2 * B / c) \<le> \<bar>get_Ef isb - (get_E isb + real N * dmu)\<bar>" by linarith
  then have "2 * B / c \<le> \<bar>get_Ef isb - (get_E isb + real N * dmu)\<bar> / kT"
    using kT by (simp add: pos_le_divide_eq mult.commute)
  also have "\<dots> = \<bar>x\<bar>" using kT by (simp add: x_def)
  finally have "2 * B / c \<le> 1 + \<bar>x\<bar>" by linarith
  then have "2 * B \<le> c * (1 + \<bar>x\<bar>)" using assms(6) by (simp add: pos_divide_le_eq mult.commute)
  then have small: "B * (2 / (1 + \<bar>x\<bar>)) \<le> c"
    by (simp add: pos_divide_le_eq mult.commute)
  have "fst (PI_body hBar kB e isb q_perp T (PI_after hBar kB e isb q_perp T N))
      \<le> get_md_0 isb / (pi * hBar * hBar) / (4 * kB * T)
          * (2 / (1 + \<bar>(get_Ef isb - fst (PI_after hBar kB e isb q_perp T N)) / (2 * kB * T)\<bar>))"
    using assms by (intro PI_dI_bounds(2)) simp_all
  also have "\<dots> = B * (2 / (1 + \<bar>x\<bar>))"
    by (simp add: B_def x_def PI_after_mu dmu_def kT_def)
  finally show ?thesis using small by (intro exI [of _ N]) linarith
qed


lemma PI_first_pass:
  "PI hBar kB e isb q_perp T =
     (let r = PI_body hBar kB e isb q_perp T (get_E isb, 0) in
      if fst r > snd (snd r) / 100 then PI_loop hBar kB e isb q_perp T (snd r)
      else Some (snd (snd r)))"
  unfolding PI_def by (subst PI_loop.simps) (simp add: Let_def)

lemma PI_some_pass_converges:
  assumes "0 < kB" "0 < T" "0 < e" "0 \<le> get_md_0 isb" "\<forall>mu. 0 \<le> k isb mu"
  shows "\<exists>N. \<not> PI_continues hBar kB e isb q_perp T (Suc N)"
proof -
  let ?d = "\<lambda>n. fst (PI_body hBar kB e isb q_perp T (PI_after hBar kB e isb q_perp T n))"
  let ?I = "\<lambda>n. snd (PI_after hBar kB e isb q_perp T n)"
  have cont: "PI_continues hBar kB e isb q_perp T (Suc n) \<longleftrightarrow> ?d n > ?I (Suc n) / 100" for n
    by (simp add: PI_continues_def Let_def)
  have I1: "?I 1 = ?d 0 * (0.001 * e)" by (simp add: PI_body_next)
  have d0: "0 \<le> ?d 0" using assms by (intro PI_dI_bounds(1)) simp_all
  show ?thesis
  proof (cases "?d 0 = 0")
    case True
    then have "\<not> ?d 0 > ?I (Suc 0) / 100" using I1 by simp
    then show ?thesis unfolding cont by blast
  next
    case False
    with d0 have "0 < ?d 0" by simp
    then have "0 < ?d 0 * (0.001 * e)" using assms(3) by simp
    then have c: "0 < ?I 1 / 100" unfolding I1 by simp
    obtain N where N: "?d N \<le> ?I 1 / 100"
      using PI_increment_small [OF assms c, of hBar q_perp] by blast
    have "?I 1 \<le> ?I (Suc N)" using assms by (rule PI_after_integral_ge_first)
    with N have "\<not> ?d N > ?I (Suc N) / 100" by linarith
    then show ?thesis unfolding cont by blast
  qed
qed

text \<open>
  C2. For a subband with a positive mass and non-negative wavevectors \<open>k(mu)\<close>, a
  temperature \<open>T > 0\<close> and positive constants (so the step \<open>dmu\<close> is positive and the
  thermal weight \<open>1/(4kT cosh\<^sup>2((Ef - mu)/(2kT)))\<close> decays as \<open>mu\<close> grows), and for any
  \<open>q_perp\<close>, the loop of \<open>PI\<close> ends: it returns the value of \<open>integral\<close> after some
  number \<open>n \<ge> 1\<close> of passes, the test \<open>dI > integral/100\<close> having been true at the end
  of every pass before the \<open>n\<close>-th and false at the end of the \<open>n\<close>-th. That the first
  pass runs before any test, for every input, is \<open>PI_first_pass\<close>.
\<close>

theorem PI_runs_once_then_until_converged:
  assumes "0 < hBar" "0 < kB" "0 < e" "0 < T" "0 < get_md_0 isb" "\<forall>mu. 0 \<le> k isb mu"
  shows "\<exists>n\<ge>1. PI hBar kB e isb q_perp T = Some (snd (PI_after hBar kB e isb q_perp T n))
           \<and> (\<forall>j. 1 \<le> j \<and> j < n \<longrightarrow> PI_continues hBar kB e isb q_perp T j)
           \<and> \<not> PI_continues hBar kB e isb q_perp T n"
proof -
  let ?step = "\<lambda>s. snd (PI_body hBar kB e isb q_perp T s)"
  let ?stops = "\<lambda>N. \<not> PI_continues hBar kB e isb q_perp T (Suc N)"
  have cont: "PI_continues hBar kB e isb q_perp T (Suc j) \<longleftrightarrow>
      fst (PI_body hBar kB e isb q_perp T ((?step ^^ j) (get_E isb, 0)))
        > snd (snd (PI_body hBar kB e isb q_perp T ((?step ^^ j) (get_E isb, 0)))) / 100" for j
    by (simp add: PI_continues_def Let_def PI_after_funpow)
  have "0 \<le> get_md_0 isb" using assms(5) by simp
  with assms have "\<exists>N. ?stops N" by (intro PI_some_pass_converges) 
  then obtain N where N: "?stops N" ..
  define n0 where "n0 = (LEAST N. ?stops N)"
  have stop: "?stops n0" unfolding n0_def using N by (rule LeastI)
  have before: "PI_continues hBar kB e isb q_perp T (Suc j)" if "j < n0" for j
    using not_less_Least [of j ?stops] that unfolding n0_def by blast
  have "PI_loop hBar kB e isb q_perp T (get_E isb, 0)
      = Some (snd (snd (PI_body hBar kB e isb q_perp T ((?step ^^ n0) (get_E isb, 0)))))"
  proof (rule PI_loop_runs)
    show "\<forall>j<n0. fst (PI_body hBar kB e isb q_perp T ((?step ^^ j) (get_E isb, 0)))
        > snd (snd (PI_body hBar kB e isb q_perp T ((?step ^^ j) (get_E isb, 0)))) / 100"
      using before unfolding cont by blast
    show "\<not> fst (PI_body hBar kB e isb q_perp T ((?step ^^ n0) (get_E isb, 0)))
        > snd (snd (PI_body hBar kB e isb q_perp T ((?step ^^ n0) (get_E isb, 0)))) / 100"
      using stop unfolding cont .
  qed
  then have result: "PI hBar kB e isb q_perp T
      = Some (snd (PI_after hBar kB e isb q_perp T (Suc n0)))"
    by (simp add: PI_def PI_after_funpow)
  have "\<forall>j. 1 \<le> j \<and> j < Suc n0 \<longrightarrow> PI_continues hBar kB e isb q_perp T j"
  proof (intro allI impI)
    fix j assume j: "1 \<le> j \<and> j < Suc n0"
    then obtain i where "j = Suc i" "i < n0" by (cases j) auto
    then show "PI_continues hBar kB e isb q_perp T j" using before by simp
  qed
  with result stop show ?thesis by (intro exI [of _ "Suc n0"]) simp
qed

theorem PI_runs_once_then_until_converged_witness:
  "\<exists>n\<ge>1. PI 1 1 1 \<lparr>get_md_0 = 1, get_E = 0, get_Ef = 0, get_pop = 1,
                      k = (\<lambda>E. 0), Ek = (\<lambda>k. 0), f_FD_k = (\<lambda>k T. 0)\<rparr> 0 1
          = Some (snd (PI_after 1 1 1 \<lparr>get_md_0 = 1, get_E = 0, get_Ef = 0, get_pop = 1,
                      k = (\<lambda>E. 0), Ek = (\<lambda>k. 0), f_FD_k = (\<lambda>k T. 0)\<rparr> 0 1 n))
        \<and> \<not> PI_continues 1 1 1 \<lparr>get_md_0 = 1, get_E = 0, get_Ef = 0, get_pop = 1,
                      k = (\<lambda>E. 0), Ek = (\<lambda>k. 0), f_FD_k = (\<lambda>k T. 0)\<rparr> 0 1 n"
  using PI_runs_once_then_until_converged [of 1 1 1 1 "\<lparr>get_md_0 = 1, get_E = 0, get_Ef = 0,
      get_pop = 1, k = (\<lambda>E. 0), Ek = (\<lambda>k. 0), f_FD_k = (\<lambda>k T. 0)\<rparr>" 0]
  by auto

text \<open>
  C4, as the code has it. At the energy sample \<open>mu\<close> the increment of the integral is the
  term \<open>P0\<close> over \<open>4kT cosh\<^sup>2((Ef - mu)/(2kT))\<close>, where \<open>P0\<close> is the base value
  \<open>m/(pi hBar\<^sup>2)\<close> reduced by \<open>m/(pi hBar\<^sup>2) sqrt(1 - (2k(mu)/q)\<^sup>2)\<close> when \<open>q > 2k(mu)\<close>,
  and the base value otherwise (also when \<open>q = 2k(mu)\<close>). For a positive mass and
  \<open>k(mu) \<ge> 0\<close> the term is below its base value exactly when \<open>q > 2k(mu)\<close>.
\<close>

theorem PI_P0_reduced_iff_q_above_2k:
  assumes "0 < get_md_0 isb" "0 < hBar" "0 \<le> k isb mu"
  shows "fst (PI_body hBar kB e isb q_perp T (mu, integral))
           = PI_P0 hBar (get_md_0 isb) (k isb mu) q_perp
               / (4 * kB * T * (cosh ((get_Ef isb - mu) / (2 * kB * T)))\<^sup>2)
       \<and> PI_P0 hBar (get_md_0 isb) (k isb mu) q_perp =
           (if q_perp > 2 * k isb mu
            then get_md_0 isb / (pi * hBar\<^sup>2)
                 - get_md_0 isb / (pi * hBar\<^sup>2) * sqrt (1 - (2 * k isb mu / q_perp)\<^sup>2)
            else get_md_0 isb / (pi * hBar\<^sup>2))
       \<and> (PI_P0 hBar (get_md_0 isb) (k isb mu) q_perp < get_md_0 isb / (pi * hBar\<^sup>2)
            \<longleftrightarrow> q_perp > 2 * k isb mu)"
proof -
  define m where "m = get_md_0 isb"
  define ki where "ki = k isb mu"
  define P where "P = m / (pi * hBar\<^sup>2)"
  have P: "0 < P" using assms by (simp add: P_def m_def)
  have eq: "PI_P0 hBar m ki q_perp =
      (if q_perp > 2 * ki then P - P * sqrt (1 - (2 * ki / q_perp)\<^sup>2) else P)"
    by (simp add: PI_P0_def P_def gsl_pow_2_def power2_eq_square mult.assoc)
  have "0 < sqrt (1 - (2 * ki / q_perp)\<^sup>2)" if "q_perp > 2 * ki"
  proof -
    define r where "r = 2 * ki / q_perp"
    have r: "0 \<le> r" "r < 1" using that assms(3) by (simp_all add: r_def ki_def)
    then have "r * r < 1 * 1" by (intro mult_strict_mono') simp_all
    then show ?thesis by (simp add: r_def power2_eq_square)
  qed
  then have "0 < P * sqrt (1 - (2 * ki / q_perp)\<^sup>2)" if "q_perp > 2 * ki"
    using that P by simp
  then have "PI_P0 hBar m ki q_perp < P \<longleftrightarrow> q_perp > 2 * ki"
    unfolding eq by (cases "q_perp > 2 * ki") auto
  moreover have "fst (PI_body hBar kB e isb q_perp T (mu, integral))
           = PI_P0 hBar m ki q_perp / (4 * kB * T * (cosh ((get_Ef isb - mu) / (2 * kB * T)))\<^sup>2)"
    by (simp add: PI_body_dI gsl_pow_2_def power2_eq_square m_def ki_def)
  ultimately show ?thesis using eq unfolding P_def m_def ki_def by blast
qed

theorem PI_P0_reduced_iff_q_above_2k_witness:
  "PI_P0 1 1 0 2 = 0 \<and> PI_P0 1 1 0 2 < 1 / pi \<and> PI_P0 1 1 1 2 = 1 / pi"
  using
    PI_P0_reduced_iff_q_above_2k [of "\<lparr>get_md_0 = 1, get_E = 0, get_Ef = 0, get_pop = 1,
      k = (\<lambda>E. 0), Ek = (\<lambda>k. 0), f_FD_k = (\<lambda>k T. 0)\<rparr>" 1 0 1 1 2 1 0]
    PI_P0_reduced_iff_q_above_2k [of "\<lparr>get_md_0 = 1, get_E = 0, get_Ef = 0, get_pop = 1,
      k = (\<lambda>E. 1), Ek = (\<lambda>k. 0), f_FD_k = (\<lambda>k T. 0)\<rparr>" 1 0 1 1 2 1 0]
  by simp

text \<open>
  The claim has the comparison the other way round (reduced when \<open>q < 2k(mu)\<close>). With
  \<open>m = hBar = 1\<close>: at \<open>k = 1\<close>, \<open>q = 1\<close>, where \<open>q < 2k\<close>, the term stays at its base
  value \<open>1/pi\<close>; at \<open>k = 0\<close>, \<open>q = 2\<close>, where \<open>q < 2k\<close> is false, the term is reduced to 0.
\<close>

theorem PI_P0_reduced_when_q_below_2k_counterexample:
  "(1::real) < 2 * 1 \<and> PI_P0 1 1 1 1 = 1 / (pi * 1 * 1)
   \<and> \<not> (2::real) < 2 * 0 \<and> PI_P0 1 1 0 2 = 0 \<and> PI_P0 1 1 0 2 \<noteq> 1 / (pi * 1 * 1)"
  by (simp add: PI_P0_def gsl_pow_2_def)

subsection \<open>The carrier-carrier rate\<close>

text \<open>
  C8. For every transition \<open>(i, j, f, g)\<close> the value of \<open>Deltak0sqr\<close> is
  \<open>4m(E\<^sub>i + E\<^sub>j - E\<^sub>f - E\<^sub>g)/hBar\<^sup>2\<close> when \<open>i + j \<noteq> f + g\<close> and exactly zero when
  \<open>i + j = f + g\<close>, whatever the four energies are. The sums are those of the code,
  on 32-bit unsigned integers; they are the sums of the indices as numbers whenever
  these stay below \<open>2\<^sup>3\<^sup>2\<close>.
\<close>

theorem Deltak0sqr_zero_iff_index_sum_conserved:
  "Deltak0sqr_ijfg hBar m i j f g Ei Ej Ef Eg
     = (if i + j = f + g then 0 else 4 * m * (Ei + Ej - Ef - Eg) / hBar\<^sup>2)
   \<and> (unat i + unat j < 2 ^ 32 \<and> unat f + unat g < 2 ^ 32 \<longrightarrow>
        Deltak0sqr_ijfg hBar m i j f g Ei Ej Ef Eg
          = (if unat i + unat j = unat f + unat g then 0
             else 4 * m * (Ei + Ej - Ef - Eg) / hBar\<^sup>2))"
proof -
  have "i + j = f + g \<longleftrightarrow> unat i + unat j = unat f + unat g"
    if "unat i + unat j < 2 ^ 32" "unat f + unat g < 2 ^ 32"
  proof -
    have "unat (i + j) = unat i + unat j" "unat (f + g) = unat f + unat g"
      using that by (simp_all add: unat_add_lem [THEN iffD1])
    then show ?thesis by (simp add: word_unat_eq_iff)
  qed
  then show ?thesis by (simp add: Deltak0sqr_ijfg_def power2_eq_square)
qed

theorem Deltak0sqr_zero_iff_index_sum_conserved_witness:
  "Deltak0sqr_ijfg 1 1 1 2 2 1 5 3 2 1 = 0 \<and> Deltak0sqr_ijfg 1 1 2 2 1 1 5 3 2 1 = 20"
  using Deltak0sqr_zero_iff_index_sum_conserved [of 1 1 1 2 2 1 5 3 2 1]
    Deltak0sqr_zero_iff_index_sum_conserved [of 1 1 2 2 1 1 5 3 2 1]
  by simp

text \<open>
  With a real square root the value of \<open>q_perpsqr4\<close> is a sum of two squares: in exact
  arithmetic the test \<open>q_perpsqr4 >= 0\<close> fails only on a NaN, that is when
  \<open>kij\<^sup>2 + Deltak0sqr\<close> is negative.
\<close>

lemma q_perpsqr4_never_negative:
  assumes "q_perpsqr4 kij Deltak0sqr theta = Some x"
  shows "0 \<le> x"
proof -
  define s where "s = sqrt (kij * kij + Deltak0sqr)"
  from assms have D: "0 \<le> kij * kij + Deltak0sqr"
    and x: "x = 2 * kij * kij + Deltak0sqr - 2 * kij * s * cos theta"
    by (auto simp: q_perpsqr4_def s_def split: if_splits)
  have s2: "s * s = kij * kij + Deltak0sqr" using D by (simp add: s_def)
  have cs: "cos theta * cos theta + sin theta * sin theta = 1"
    using sin_cos_squared_add2 [of theta] by (simp add: power2_eq_square)
  have alg: "(kij - s * c)\<^sup>2 + (s * d)\<^sup>2
      = kij * kij - 2 * kij * s * c + s * s * (c * c + d * d)" for c d :: real
    by (simp add: power2_eq_square algebra_simps)
  have "(kij - s * cos theta)\<^sup>2 + (s * sin theta)\<^sup>2
      = kij * kij - 2 * kij * s * cos theta
        + s * s * (cos theta * cos theta + sin theta * sin theta)"
    by (rule alg)
  also have "\<dots> = kij * kij - 2 * kij * s * cos theta + s * s" by (simp only: cs mult_1_right)
  also have "\<dots> = x" using x s2 by simp
  finally have "x = (kij - s * cos theta)\<^sup>2 + (s * sin theta)\<^sup>2" by simp
  then show ?thesis by simp
qed

text \<open>
  C5. At a \<open>theta\<close> sample whose value of \<open>q_perpsqr4\<close> is negative (or not a number,
  which is what \<open>kij\<^sup>2 + Deltak0sqr < 0\<close> gives) the pass leaves the accumulator \<open>Wijfg\<close> as
  it was and fails in no way: no lookup is made, nothing exits. Whenever \<open>q_perp\<close> is
  computed, it is half the square root of a non-negative value of \<open>q_perpsqr4\<close>, so the
  argument of that square root is never negative, and \<open>q_perp\<close> is not negative.
\<close>

theorem forbidden_theta_sample_is_skipped:
  "((v = None \<or> (\<exists>x<0. v = Some x)) \<longrightarrow>
      theta_accumulate e epsilon Aijfg PIii nq P kj v Wijfg = Inr Wijfg)
   \<and> (kij * kij + Deltak0sqr < 0 \<longrightarrow>
      theta_pass e epsilon Aijfg PIii nq Deltak0sqr kij P kj theta Wijfg = Inr Wijfg)
   \<and> (\<forall>q_perp. q_perp_sample v = Some q_perp \<longrightarrow>
        (\<exists>x\<ge>0. v = Some x \<and> q_perp = sqrt x / 2) \<and> 0 \<le> q_perp)"
proof (intro conjI impI allI)
  assume "v = None \<or> (\<exists>x<0. v = Some x)"
  then have "q_perp_sample v = None" by (auto simp: q_perp_sample_def)
  then show "theta_accumulate e epsilon Aijfg PIii nq P kj v Wijfg = Inr Wijfg"
    by (simp add: theta_accumulate_def)
next
  assume "kij * kij + Deltak0sqr < 0"
  then show "theta_pass e epsilon Aijfg PIii nq Deltak0sqr kij P kj theta Wijfg = Inr Wijfg"
    by (simp add: theta_pass_def theta_accumulate_def q_perpsqr4_def q_perp_sample_def)
next
  fix q_perp assume q: "q_perp_sample v = Some q_perp"
  then obtain x where x: "v = Some x" "0 \<le> x" "q_perp = sqrt x / 2"
    by (auto simp: q_perp_sample_def split: option.splits if_splits)
  then show "\<exists>x\<ge>0. v = Some x \<and> q_perp = sqrt x / 2" by blast
  have "0 \<le> sqrt x" using x(2) by simp
  then show "0 \<le> q_perp" unfolding x(3) by simp
qed

theorem forbidden_theta_sample_is_skipped_witness:
  "theta_accumulate 1 1 [\<lparr>a = 0, b = 1\<rparr>, \<lparr>a = 1, b = 3\<rparr>] [\<lparr>a = 0, b = 0\<rparr>, \<lparr>a = 1, b = 0\<rparr>] 2
        1 1 (Some (- 1)) 7 = Inr 7
   \<and> q_perpsqr4 1 (- 2) 0 = None
   \<and> theta_pass 1 1 [\<lparr>a = 0, b = 1\<rparr>, \<lparr>a = 1, b = 3\<rparr>] [\<lparr>a = 0, b = 0\<rparr>, \<lparr>a = 1, b = 0\<rparr>] 2
        (- 2) 1 1 1 0 7 = Inr 7
   \<and> q_perp_sample (Some 4) = Some 1"
proof -
  have s: "q_perp_sample (Some 4) = Some 1"
    using real_sqrt_four by (simp add: q_perp_sample_def)
  have n: "q_perpsqr4 1 (- 2) 0 = None" by (simp add: q_perpsqr4_def)
  show ?thesis
    using s n
      forbidden_theta_sample_is_skipped [of "Some (- 1)" 1 1 "[\<lparr>a = 0, b = 1\<rparr>, \<lparr>a = 1, b = 3\<rparr>]"
        "[\<lparr>a = 0, b = 0\<rparr>, \<lparr>a = 1, b = 0\<rparr>]" 2 1 1 7 1 "- 2" 0]
    by simp
qed


subsection \<open>The carrier-LO-phonon rate\<close>




text \<open>The cast to \<open>float\<close> is exact up to \<open>2\<^sup>2\<^sup>4\<close>.\<close>

lemma bitlen_0: "bitlen 0 = 0"
  by (simp add: bitlen.simps)

lemma bitlen_1: "bitlen (Suc 0) = Suc 0"
  by (simp add: bitlen.simps)

lemma bitlen_numeral: "bitlen (numeral w) = Suc (bitlen (numeral w div 2))"
  by (subst bitlen.simps) simp

lemma bitlen_le: "n < 2 ^ j \<Longrightarrow> bitlen n \<le> j"
proof (induction j arbitrary: n)
  case 0
  then show ?case by (simp add: bitlen_0)
next
  case (Suc j)
  show ?case
  proof (cases "n = 0")
    case True
    then show ?thesis by (simp add: bitlen_0)
  next
    case False
    from Suc.prems have "n div 2 < 2 ^ j" by simp
    then have "bitlen (n div 2) \<le> j" by (rule Suc.IH)
    then show ?thesis using False by (subst bitlen.simps) simp
  qed
qed

lemma to_float_exact:
  assumes "n \<le> 2 ^ 24"
  shows "to_float n = n"
proof (cases "n = 2 ^ 24")
  case True
  have "to_float 16777216 = 16777216"
    by (simp add: to_float_def bitlen_numeral bitlen_0 bitlen_1 Let_def)
  then show ?thesis using True by simp
next
  case False
  with assms have "n < 2 ^ 24" by simp
  then have "bitlen n \<le> 24" by (rule bitlen_le)
  then have "bitlen n - 24 = 0" by simp
  then show ?thesis by (simp add: to_float_def Let_def)
qed

text \<open>
  C10, as the code has it. For a cutoff wavevector \<open>kimax > 0\<close> and a sample count
  \<open>1 \<le> nki \<le> 2\<^sup>2\<^sup>4\<close> (which the cast \<open>(float)nki\<close> keeps as it is) the loop visits exactly
  the \<open>nki\<close> wavevectors \<open>ki = iki * (kimax/nki)\<close>, \<open>0 \<le> iki < nki\<close>: the first is exactly
  zero and each is strictly below \<open>kimax\<close>, so the cutoff itself is never a sample.
\<close>

theorem ki_grid_below_cutoff:
  assumes "0 < kimax" "1 \<le> nki" "nki \<le> 2 ^ 24"
  shows "ki_samples kimax nki = Some (map (\<lambda>iki. real iki * (kimax / real nki)) [0..<nki])
       \<and> (\<forall>iki<nki. ki_sample kimax nki iki = real iki * (kimax / real nki)
                      \<and> ki_sample kimax nki iki < kimax)
       \<and> ki_sample kimax nki 0 = 0"
proof -
  have f: "to_float nki = nki" using assms(3) by (rule to_float_exact)
  have s: "ki_sample kimax nki iki = real iki * (kimax / real nki)" for iki
    by (simp add: ki_sample_def f)
  have "nki < 2 ^ 32" using assms(3) by simp
  then have "ki_samples kimax nki = Some (map (\<lambda>iki. real iki * (kimax / real nki)) [0..<nki])"
    by (simp add: ki_samples_def s)
  moreover have "real iki * (kimax / real nki) < kimax" if "iki < nki" for iki
  proof -
    have "real iki / real nki < 1" using that assms(2) by simp
    then have "kimax * (real iki / real nki) < kimax * 1"
      using assms(1) by (intro mult_strict_left_mono)
    then show ?thesis by (simp add: mult.commute)
  qed
  ultimately show ?thesis using s by simp
qed

theorem ki_grid_below_cutoff_witness:
  "ki_samples 1 4 = Some [0, 1 / 4, 1 / 2, 3 / 4] \<and> ki_sample 1 4 3 < 1 \<and> ki_sample 1 4 0 = 0"
  using ki_grid_below_cutoff [of 1 4] by (simp add: upt_rec)

text \<open>
  Without the two bounds the claim fails. With \<open>kimax = 0\<close> the only sample of \<open>nki = 1\<close>
  is \<open>0\<close>, which is not below \<open>kimax\<close>. With \<open>nki = 2\<^sup>2\<^sup>4 + 1\<close> the cast \<open>(float)nki\<close> is
  \<open>2\<^sup>2\<^sup>4\<close>, the step is \<open>kimax/(nki - 1)\<close> and the last sample, \<open>iki = 2\<^sup>2\<^sup>4\<close>, is \<open>kimax\<close>.
\<close>

theorem ki_grid_reaches_cutoff_counterexample:
  "ki_samples 0 1 = Some [0] \<and> \<not> ki_sample 0 1 0 < 0
   \<and> (16777216::nat) < 16777217 \<and> ki_sample 1 16777217 16777216 = 1
   \<and> \<not> ki_sample 1 16777217 16777216 < 1"
proof -
  have "to_float 16777217 = 16777216"
    by (simp add: to_float_def bitlen_numeral bitlen_0 bitlen_1 Let_def)
  then have "ki_sample 1 16777217 16777216 = 1" by (simp add: ki_sample_def)
  moreover have "ki_samples 0 1 = Some [0]" by (simp add: ki_samples_def ki_sample_def)
  moreover have "ki_sample 0 1 0 = 0" by (simp add: ki_sample_def)
  ultimately show ?thesis by simp
qed

end
